theory Spec2Isabelle
  imports Complex_Main "HOL-Library.Sublist" "HOL-Library.List_Lexorder" "HOL-Library.Multiset"
begin

section \<open>Python values\<close>

text \<open>
  A \<^verbatim>\<open>bytes\<close> object is a list of 8-bit characters; a Python \<^verbatim>\<open>str\<close> is a list of
  Unicode code points.  The results of the analyzers are plain nested Python values
  (dictionaries keep their insertion order, so they are association lists).
\<close>

type_synonym bytes = "char list"
type_synonym str = "nat list"

definition ord :: "char \<Rightarrow> nat" where
  "ord c = of_char c"

definition ascii :: "string \<Rightarrow> str" where
  "ascii cs = map ord cs"

datatype pyval =
    PInt int
  | PFloat real
  | PStr str
  | PTuple "pyval list"
  | PList "pyval list"
  | PDict "(str \<times> pyval) list"

text \<open>An exception of class \<^verbatim>\<open>Exception\<close>, with the text \<^verbatim>\<open>str(e)\<close>.\<close>

datatype exn = Exception str

definition slice :: "bytes \<Rightarrow> nat \<Rightarrow> nat \<Rightarrow> bytes" where
  "slice data b e = take (e - b) (drop b data)"

text \<open>\<^verbatim>\<open>d[k] = v\<close> on a dictionary: an existing key keeps its place.\<close>

fun dict_set :: "('k \<times> 'v) list \<Rightarrow> 'k \<Rightarrow> 'v \<Rightarrow> ('k \<times> 'v) list" where
  "dict_set [] k v = [(k, v)]"
| "dict_set ((k', v') # d) k v = (if k' = k then (k, v) # d else (k', v') # dict_set d k v)"

text \<open>\<^verbatim>\<open>d.get(k)\<close>.\<close>

definition dict_get :: "('k \<times> 'v) list \<Rightarrow> 'k \<Rightarrow> 'v option" where
  "dict_get d k = map_of d k"

text \<open>\<^verbatim>\<open>d[k].append(v)\<close> on a \<^verbatim>\<open>defaultdict(list)\<close>.\<close>

fun dd_append :: "('k \<times> 'v list) list \<Rightarrow> 'k \<Rightarrow> 'v \<Rightarrow> ('k \<times> 'v list) list" where
  "dd_append [] k v = [(k, [v])]"
| "dd_append ((k', vs) # d) k v =
     (if k' = k then (k', vs @ [v]) # d else (k', vs) # dd_append d k v)"

text \<open>\<^verbatim>\<open>d[k] += 1\<close> on a \<^verbatim>\<open>defaultdict(int)\<close> (also one step of \<^verbatim>\<open>Counter\<close>).\<close>

fun dd_incr :: "('k \<times> nat) list \<Rightarrow> 'k \<Rightarrow> ('k \<times> nat) list" where
  "dd_incr [] k = [(k, 1)]"
| "dd_incr ((k', c) # d) k = (if k' = k then (k', Suc c) # d else (k', c) # dd_incr d k)"

definition Counter :: "'k list \<Rightarrow> ('k \<times> nat) list" where
  "Counter xs = foldl dd_incr [] xs"

text \<open>
  \<^verbatim>\<open>sorted(items, key=lambda x: x[1], reverse=True)\<close> and \<^verbatim>\<open>Counter.most_common\<close>: a stable
  sort by decreasing count, so that equal counts keep their insertion order.
\<close>

definition sorted_by_count_desc :: "('k \<times> nat) list \<Rightarrow> ('k \<times> nat) list" where
  "sorted_by_count_desc items = sort_key (\<lambda>x. - int (snd x)) items"

definition most_common :: "nat \<Rightarrow> ('k \<times> nat) list \<Rightarrow> ('k \<times> nat) list" where
  "most_common n counts = take n (sorted_by_count_desc counts)"

text \<open>\<^verbatim>\<open>range(start, stop, step)\<close> for a positive step.\<close>

function py_range :: "int \<Rightarrow> int \<Rightarrow> int \<Rightarrow> int list" where
  "py_range i stop step =
     (if 0 < step \<and> i < stop then i # py_range (i + step) stop step else [])"
  by pat_completeness auto
termination
  by (relation "measure (\<lambda>(i, stop, step). nat (stop - i))") auto

section \<open>Byte classes\<close>

definition in_range :: "char \<Rightarrow> char \<Rightarrow> char \<Rightarrow> bool" where
  "in_range lo hi c = (ord lo \<le> ord c \<and> ord c \<le> ord hi)"

definition is_lower :: "char \<Rightarrow> bool" where
  "is_lower c = in_range CHR ''a'' CHR ''z'' c"

definition is_upper :: "char \<Rightarrow> bool" where
  "is_upper c = in_range CHR ''A'' CHR ''Z'' c"

definition is_digit :: "char \<Rightarrow> bool" where
  "is_digit c = in_range CHR ''0'' CHR ''9'' c"

definition is_alpha :: "char \<Rightarrow> bool" where
  "is_alpha c = (is_lower c \<or> is_upper c)"

definition is_alnum :: "char \<Rightarrow> bool" where
  "is_alnum c = (is_alpha c \<or> is_digit c)"

text \<open>\<^verbatim>\<open>\s\<close> in a bytes pattern: space, \<^verbatim>\<open>\t \n \v \f \r\<close>.\<close>

definition is_space :: "char \<Rightarrow> bool" where
  "is_space c = (c = CHR 0x20 \<or> (9 \<le> ord c \<and> ord c \<le> 13))"

text \<open>\<^verbatim>\<open>\w\<close> in a bytes pattern.\<close>

definition is_word :: "char \<Rightarrow> bool" where
  "is_word c = (is_alnum c \<or> c = CHR ''_'')"

definition to_lower :: "char \<Rightarrow> char" where
  "to_lower c = (if is_upper c then char_of (ord c + 32) else c)"

definition to_upper :: "char \<Rightarrow> char" where
  "to_upper c = (if is_lower c then char_of (ord c - 32) else c)"

text \<open>
  A character set under \<^verbatim>\<open>re.IGNORECASE\<close>: the byte matches when one of its two cases is
  in the set.
\<close>

definition ic :: "(char \<Rightarrow> bool) \<Rightarrow> char \<Rightarrow> bool" where
  "ic P c = (P (to_lower c) \<or> P (to_upper c))"

section \<open>Regular expressions with backtracking\<close>

text \<open>
  The fragment of \<^verbatim>\<open>re\<close> that the patterns of \<^verbatim>\<open>analyzer.py\<close> use: one byte of a class,
  the word boundary \<^verbatim>\<open>\b\<close>, sequence, the greedy repetition \<^verbatim>\<open>{lo,hi}\<close> of a class
  (\<^verbatim>\<open>+\<close> is \<^verbatim>\<open>{1,}\<close>, \<^verbatim>\<open>?\<close> is \<^verbatim>\<open>{0,1}\<close>), and the capturing group 1.
\<close>

datatype regex =
    Cls "char \<Rightarrow> bool"
  | Bnd
  | Seq regex regex
  | Rep nat "nat option" "char \<Rightarrow> bool"
  | Grp regex

text \<open>A state of the matcher: the position and the span of group 1 when it is set.\<close>

type_synonym mstate = "nat \<times> (nat \<times> nat) option"

definition word_at :: "bytes \<Rightarrow> nat \<Rightarrow> bool" where
  "word_at s i = (i < length s \<and> is_word (s ! i))"

definition at_boundary :: "bytes \<Rightarrow> nat \<Rightarrow> bool" where
  "at_boundary s i = ((0 < i \<and> word_at s (i - 1)) \<noteq> word_at s i)"

text \<open>The candidate lengths of a greedy repetition, longest first, down to \<open>lo\<close>.\<close>

fun countdown :: "nat \<Rightarrow> nat \<Rightarrow> nat list" where
  "countdown lo 0 = (if lo = 0 then [0] else [])"
| "countdown lo (Suc k) = (if lo \<le> Suc k then Suc k # countdown lo k else [])"

definition run_len :: "(char \<Rightarrow> bool) \<Rightarrow> nat option \<Rightarrow> bytes \<Rightarrow> nat" where
  "run_len P hi s =
     (let r = length (takeWhile P s) in case hi of None \<Rightarrow> r | Some h \<Rightarrow> min h r)"

text \<open>
  \<open>ends r s st\<close> lists the states in which \<open>r\<close> can end when started in \<open>st\<close>, in the
  order in which a backtracking matcher tries them; the first one is the match.
\<close>

fun ends :: "regex \<Rightarrow> bytes \<Rightarrow> mstate \<Rightarrow> mstate list" where
  "ends (Cls P) s (i, g) = (if i < length s \<and> P (s ! i) then [(Suc i, g)] else [])"
| "ends Bnd s (i, g) = (if at_boundary s i then [(i, g)] else [])"
| "ends (Seq a b) s st = concat (map (ends b s) (ends a s st))"
| "ends (Rep lo hi P) s (i, g) =
     map (\<lambda>k. (i + k, g)) (countdown lo (run_len P hi (drop i s)))"
| "ends (Grp r) s (i, g) = map (\<lambda>(e, _). (e, Some (i, e))) (ends r s (i, g))"

text \<open>A match object: \<^verbatim>\<open>start()\<close>, \<^verbatim>\<open>end()\<close> and the span of group 1.\<close>

type_synonym rmatch = "nat \<times> nat \<times> (nat \<times> nat) option"

definition match_at :: "regex \<Rightarrow> bytes \<Rightarrow> nat \<Rightarrow> rmatch option" where
  "match_at r s i =
     (case ends r s (i, None) of [] \<Rightarrow> None | (e, g) # _ \<Rightarrow> Some (i, e, g))"

text \<open>
  \<^verbatim>\<open>re.finditer\<close>: the scan tries every start from left to right and goes on at the end of
  a match.  (After an empty match the scan moves one byte on; no pattern of the program
  matches the empty string.)
\<close>

function finditer_from :: "regex \<Rightarrow> bytes \<Rightarrow> nat \<Rightarrow> rmatch list" where
  "finditer_from r s i =
     (if length s < i then []
      else case match_at r s i of
             None \<Rightarrow> finditer_from r s (Suc i)
           | Some (b, e, g) \<Rightarrow> (b, e, g) # finditer_from r s (if i < e then e else Suc i))"
  by pat_completeness auto
termination
  by (relation "measure (\<lambda>(r, s, i). Suc (length s) - i)") auto

definition finditer :: "regex \<Rightarrow> bytes \<Rightarrow> rmatch list" where
  "finditer r s = finditer_from r s 0"

text \<open>\<^verbatim>\<open>match.group()\<close> and \<^verbatim>\<open>match.group(1)\<close> (\<^verbatim>\<open>None\<close> when group 1 took no part).\<close>

definition group0 :: "bytes \<Rightarrow> rmatch \<Rightarrow> bytes" where
  "group0 data m = (case m of (b, e, g) \<Rightarrow> slice data b e)"

definition group1 :: "bytes \<Rightarrow> rmatch \<Rightarrow> bytes option" where
  "group1 data m = (case m of (b, e, g) \<Rightarrow> map_option (\<lambda>(x, y). slice data x y) g)"

definition start :: "rmatch \<Rightarrow> nat" where
  "start m = fst m"

text \<open>
  A literal byte of a pattern, without and with \<^verbatim>\<open>re.IGNORECASE\<close>, and a literal
  keyword under \<^verbatim>\<open>re.IGNORECASE\<close> in front of the rest of the pattern.
\<close>

definition Chr :: "char \<Rightarrow> regex" where
  "Chr c = Cls (\<lambda>x. x = c)"

definition ChrI :: "char \<Rightarrow> regex" where
  "ChrI c = Cls (ic (\<lambda>x. x = c))"

fun LitI :: "string \<Rightarrow> regex \<Rightarrow> regex" where
  "LitI [] r = r"
| "LitI (c # cs) r = Seq (ChrI c) (LitI cs r)"

section \<open>Control flow with exceptions\<close>

text \<open>A computation either raises (\<open>Inl\<close>) or returns (\<open>Inr\<close>).\<close>

definition then_do :: "exn + 'a \<Rightarrow> ('a \<Rightarrow> exn + 'b) \<Rightarrow> exn + 'b" where
  "then_do x f = (case x of Inl e \<Rightarrow> Inl e | Inr v \<Rightarrow> f v)"

text \<open>A \<^verbatim>\<open>for\<close> loop over a list whose body updates the loop state and may raise.\<close>

fun for_loop :: "('s \<Rightarrow> 'a \<Rightarrow> exn + 's) \<Rightarrow> 'a list \<Rightarrow> 's \<Rightarrow> exn + 's" where
  "for_loop body [] st = Inr st"
| "for_loop body (x # xs) st =
     (case body st x of Inl e \<Rightarrow> Inl e | Inr st' \<Rightarrow> for_loop body xs st')"

section \<open>Decoding bytes\<close>

text \<open>The \<^verbatim>\<open>errors=\<close> argument of \<^verbatim>\<open>bytes.decode\<close>.\<close>

datatype errors = Strict | Ignore | Replace

text \<open>
  What a decoder does with an undecodable span, given the decoding of the rest: raise
  \<^verbatim>\<open>UnicodeDecodeError\<close> (its message is abbreviated to the class name), drop the span, or
  put U+FFFD in its place.
\<close>

definition on_error :: "errors \<Rightarrow> (exn + str) \<Rightarrow> exn + str" where
  "on_error h rest =
     (case h of
        Strict \<Rightarrow> Inl (Exception (ascii ''UnicodeDecodeError''))
      | Ignore \<Rightarrow> rest
      | Replace \<Rightarrow> then_do rest (\<lambda>t. Inr (0xFFFD # t)))"

text \<open>\<^verbatim>\<open>bs.decode('ascii', errors=h)\<close>.\<close>

fun ascii_decode :: "errors \<Rightarrow> bytes \<Rightarrow> exn + str" where
  "ascii_decode h [] = Inr []"
| "ascii_decode h (c # rest) =
     (if ord c < 0x80 then then_do (ascii_decode h rest) (\<lambda>t. Inr (ord c # t))
      else on_error h (ascii_decode h rest))"

definition is_cont :: "char \<Rightarrow> bool" where
  "is_cont c = (0x80 \<le> ord c \<and> ord c \<le> 0xBF)"

text \<open>The second byte of a three- or four-byte sequence, which excludes overlong forms,
  surrogates and code points beyond U+10FFFF.\<close>

definition second_ok :: "nat \<Rightarrow> char \<Rightarrow> bool" where
  "second_ok ch c2 =
     (is_cont c2 \<and>
      (if ch = 0xE0 then 0xA0 \<le> ord c2
       else if ch = 0xED then ord c2 < 0xA0
       else if ch = 0xF0 then 0x90 \<le> ord c2
       else if ch = 0xF4 then ord c2 < 0x90
       else True))"

text \<open>
  One step of the UTF-8 decoder on the lead byte \<open>c\<close> and the bytes after it: the code
  point decoded, or \<open>None\<close> for an undecodable span, and the number of bytes the step
  covers (an undecodable span is the longest prefix of a valid sequence, at least the
  lead byte).
\<close>

definition utf8_step :: "char \<Rightarrow> bytes \<Rightarrow> nat option \<times> nat" where
  "utf8_step c rest =
     (let ch = ord c in
      if ch < 0x80 then (Some ch, 1)
      else if ch < 0xC2 then (None, 1)
      else if ch < 0xE0 then
        (case rest of
           [] \<Rightarrow> (None, 1)
         | c2 # _ \<Rightarrow>
             if is_cont c2 then (Some ((ch - 0xC0) * 64 + (ord c2 - 0x80)), 2)
             else (None, 1))
      else if ch < 0xF0 then
        (case rest of
           [] \<Rightarrow> (None, 1)
         | c2 # rest2 \<Rightarrow>
             if \<not> second_ok ch c2 then (None, 1)
             else (case rest2 of
                     [] \<Rightarrow> (None, 2)
                   | c3 # _ \<Rightarrow>
                       if is_cont c3
                       then (Some ((ch - 0xE0) * 4096 + (ord c2 - 0x80) * 64
                                   + (ord c3 - 0x80)), 3)
                       else (None, 2)))
      else if ch < 0xF5 then
        (case rest of
           [] \<Rightarrow> (None, 1)
         | c2 # rest2 \<Rightarrow>
             if \<not> second_ok ch c2 then (None, 1)
             else (case rest2 of
                     [] \<Rightarrow> (None, 2)
                   | c3 # rest3 \<Rightarrow>
                       if \<not> is_cont c3 then (None, 2)
                       else (case rest3 of
                               [] \<Rightarrow> (None, 3)
                             | c4 # _ \<Rightarrow>
                                 if is_cont c4
                                 then (Some ((ch - 0xF0) * 262144 + (ord c2 - 0x80) * 4096
                                             + (ord c3 - 0x80) * 64 + (ord c4 - 0x80)), 4)
                                 else (None, 3))))
      else (None, 1))"

text \<open>\<^verbatim>\<open>bs.decode('utf-8', errors=h)\<close>.\<close>

fun utf8_decode :: "errors \<Rightarrow> bytes \<Rightarrow> exn + str" where
  "utf8_decode h [] = Inr []"
| "utf8_decode h (c # rest) =
     (case utf8_step c rest of
        (Some cp, n) \<Rightarrow> then_do (utf8_decode h (drop (n - 1) rest)) (\<lambda>t. Inr (cp # t))
      | (None, n) \<Rightarrow> on_error h (utf8_decode h (drop (n - 1) rest)))"

section \<open>The analyzers\<close>

subsection \<open>StringExtractor\<close>

definition printable :: "char \<Rightarrow> bool" where
  "printable c = (0x20 \<le> ord c \<and> ord c \<le> 0x7E)"

text \<open>\<^verbatim>\<open>rb'[\x20-\x7E]{4,}'\<close>\<close>

definition string_pattern :: regex where
  "string_pattern = Rep 4 None printable"

definition string_finding :: "nat \<Rightarrow> str \<Rightarrow> pyval" where
  "string_finding off s =
     PDict [(ascii ''offset'', PInt (int off)),
            (ascii ''length'', PInt (int (length s))),
            (ascii ''content'', PStr s)]"

definition string_body :: "bytes \<Rightarrow> pyval list \<Rightarrow> rmatch \<Rightarrow> exn + pyval list" where
  "string_body data strings m =
     then_do (ascii_decode Ignore (group0 data m))
       (\<lambda>s. Inr (strings @ [string_finding (start m) s]))"

definition StringExtractor_analyze :: "bytes \<Rightarrow> exn + pyval" where
  "StringExtractor_analyze data =
     then_do (for_loop (string_body data) (finditer string_pattern data) [])
       (\<lambda>strings. Inr (PDict [(ascii ''total_strings'', PInt (int (length strings))),
                               (ascii ''findings'', PList (take 500 strings))]))"

subsection \<open>CredentialHunter\<close>

text \<open>The patterns are compiled with \<^verbatim>\<open>re.IGNORECASE\<close>.\<close>

definition sep_cls :: "char \<Rightarrow> bool" where
  "sep_cls c = (c = CHR 0x22 \<or> is_space c \<or> c = CHR '':'' \<or> c = CHR ''='')"

definition space_or_nul :: "char \<Rightarrow> bool" where
  "space_or_nul c = (is_space c \<or> c = CHR 0x00)"

definition key_cls :: "char \<Rightarrow> bool" where
  "key_cls c = (is_alnum c \<or> c = CHR ''_'' \<or> c = CHR ''-'')"

definition token_cls :: "char \<Rightarrow> bool" where
  "token_cls c = (is_alnum c \<or> c = CHR ''_'' \<or> c = CHR ''.'' \<or> c = CHR ''-'')"

text \<open>\<^verbatim>\<open>["\s:=]+\<close>\<close>

definition sepI :: "regex \<Rightarrow> regex" where
  "sepI r = Seq (Rep 1 None (ic sep_cls)) r"

text \<open>\<^verbatim>\<open>[^\s\x00]{n,}\<close>\<close>

definition nonspaceI :: "nat \<Rightarrow> regex" where
  "nonspaceI n = Rep n None (\<lambda>c. \<not> ic space_or_nul c)"

text \<open>\<^verbatim>\<open>keyword["\s:=]+(value)\<close>\<close>

definition kvI :: "string \<Rightarrow> regex \<Rightarrow> regex" where
  "kvI keyword val = LitI keyword (sepI (Grp val))"

definition credential_patterns :: "(str \<times> regex list) list" where
  "credential_patterns =
     [(ascii ''passwords'',
         [kvI ''password'' (nonspaceI 4),
          kvI ''passwd'' (nonspaceI 4),
          kvI ''pwd'' (nonspaceI 4)]),
      (ascii ''usernames'',
         [kvI ''username'' (nonspaceI 3),
          kvI ''user'' (nonspaceI 3),
          kvI ''login'' (nonspaceI 3)]),
      (ascii ''api_keys'',
         [LitI ''api'' (Seq (Rep 0 (Some 1) (ic (\<lambda>c. c = CHR ''_'' \<or> c = CHR ''-'')))
            (kvI ''key'' (Rep 16 None (ic key_cls)))),
          kvI ''apikey'' (Rep 16 None (ic key_cls))]),
      (ascii ''tokens'',
         [kvI ''token'' (Rep 16 None (ic token_cls)),
          kvI ''auth'' (Rep 16 None (ic token_cls))]),
      (ascii ''secrets'',
         [kvI ''secret'' (Rep 8 None (ic key_cls))]),
      (ascii ''aws_keys'',
         [Grp (LitI ''AKIA'' (Rep 16 (Some 16) (ic (\<lambda>c. is_digit c \<or> is_upper c))))]),
      (ascii ''mongodb_uris'',
         [LitI ''mongodb://'' (nonspaceI 1),
          LitI ''mongodb+srv://'' (nonspaceI 1)])]"

text \<open>A stored item \<^verbatim>\<open>{'offset': ..., 'value': ...}\<close>.\<close>

type_synonym item = "nat \<times> str"

definition item_offset :: "item \<Rightarrow> nat" where
  "item_offset it = fst it"

definition item_value :: "item \<Rightarrow> str" where
  "item_value it = snd it"

definition item_val :: "item \<Rightarrow> pyval" where
  "item_val it =
     PDict [(ascii ''offset'', PInt (int (item_offset it))),
            (ascii ''value'', PStr (item_value it))]"

text \<open>\<^verbatim>\<open>match.group(1 if match.lastindex else 0)\<close>\<close>

definition cred_group :: "bytes \<Rightarrow> rmatch \<Rightarrow> bytes" where
  "cred_group data m = (case group1 data m of Some bs \<Rightarrow> bs | None \<Rightarrow> group0 data m)"

definition cred_body :: "bytes \<Rightarrow> str \<Rightarrow> (str \<times> item list) list \<Rightarrow> rmatch
    \<Rightarrow> exn + (str \<times> item list) list" where
  "cred_body data category findings m =
     then_do (utf8_decode Replace (cred_group data m))
       (\<lambda>s. Inr (dd_append findings category (start m, take 200 s)))"

definition cred_pattern_loop :: "bytes \<Rightarrow> str \<Rightarrow> (str \<times> item list) list \<Rightarrow> regex
    \<Rightarrow> exn + (str \<times> item list) list" where
  "cred_pattern_loop data category findings pattern =
     for_loop (cred_body data category) (finditer pattern data) findings"

definition cred_category_loop :: "bytes \<Rightarrow> (str \<times> item list) list \<Rightarrow> str \<times> regex list
    \<Rightarrow> exn + (str \<times> item list) list" where
  "cred_category_loop data findings cp =
     for_loop (cred_pattern_loop data (fst cp)) (snd cp) findings"

text \<open>The deduplication loop over the items of one category.\<close>

fun dedup :: "str set \<Rightarrow> item list \<Rightarrow> item list \<Rightarrow> item list" where
  "dedup seen unique [] = unique"
| "dedup seen unique (it # items) =
     (if item_value it \<notin> seen then dedup (insert (item_value it) seen) (unique @ [it]) items
      else dedup seen unique items)"

definition CredentialHunter_findings :: "bytes \<Rightarrow> exn + (str \<times> item list) list" where
  "CredentialHunter_findings data =
     then_do (for_loop (cred_category_loop data) credential_patterns [])
       (\<lambda>findings. Inr (map (\<lambda>(category, items). (category, dedup {} [] items)) findings))"

definition CredentialHunter_analyze :: "bytes \<Rightarrow> exn + pyval" where
  "CredentialHunter_analyze data =
     then_do (CredentialHunter_findings data)
       (\<lambda>findings. Inr (PDict (map (\<lambda>(category, items). (category, PList (map item_val items)))
                                 findings)))"

subsection \<open>JSONExtractor\<close>

text \<open>\<^verbatim>\<open>rb'\{[^\x00]{10,500}\}'\<close>\<close>

definition json_pattern :: regex where
  "json_pattern = Seq (Chr CHR ''{'') (Seq (Rep 10 (Some 500) (\<lambda>c. c \<noteq> CHR 0x00)) (Chr CHR ''}''))"

text \<open>The body of the \<^verbatim>\<open>try\<close>; \<open>loads\<close> stands for the library's \<^verbatim>\<open>json.loads\<close>.\<close>

definition json_try :: "(str \<Rightarrow> exn + pyval) \<Rightarrow> bytes \<Rightarrow> pyval list \<Rightarrow> rmatch
    \<Rightarrow> exn + pyval list" where
  "json_try loads data findings m =
     then_do (utf8_decode Ignore (group0 data m))
       (\<lambda>json_str. then_do (loads json_str)
          (\<lambda>parsed. Inr (findings @ [PDict [(ascii ''offset'', PInt (int (start m))),
                                            (ascii ''data'', parsed)]])))"

text \<open>\<^verbatim>\<open>except: pass\<close>\<close>

definition json_body :: "(str \<Rightarrow> exn + pyval) \<Rightarrow> bytes \<Rightarrow> pyval list \<Rightarrow> rmatch
    \<Rightarrow> exn + pyval list" where
  "json_body loads data findings m =
     (case json_try loads data findings m of Inl e \<Rightarrow> Inr findings | Inr fs \<Rightarrow> Inr fs)"

definition JSONExtractor_analyze :: "(str \<Rightarrow> exn + pyval) \<Rightarrow> bytes \<Rightarrow> exn + pyval" where
  "JSONExtractor_analyze loads data =
     then_do (for_loop (json_body loads data) (finditer json_pattern data) [])
       (\<lambda>findings. Inr (PDict [(ascii ''findings'', PList findings)]))"

subsection \<open>BSONFieldAnalyzer\<close>

definition field_first :: "char \<Rightarrow> bool" where
  "field_first c = (is_alpha c \<or> c = CHR ''_'')"

definition field_rest :: "char \<Rightarrow> bool" where
  "field_rest c = (is_alnum c \<or> c = CHR ''_'' \<or> c = CHR ''.'')"

text \<open>\<^verbatim>\<open>rb'([a-zA-Z_][a-zA-Z0-9_\.]{1,50})\x00'\<close>\<close>

definition bson_pattern :: regex where
  "bson_pattern =
     Seq (Grp (Seq (Cls field_first) (Rep 1 (Some 50) field_rest))) (Chr (CHR 0x00))"

text \<open>\<^verbatim>\<open>match.group(1).decode(...)\<close> raises \<^verbatim>\<open>AttributeError\<close> on \<^verbatim>\<open>None\<close>.\<close>

definition bson_body :: "bytes \<Rightarrow> item list \<Rightarrow> rmatch \<Rightarrow> exn + item list" where
  "bson_body data field_names m =
     (case group1 data m of
        None \<Rightarrow> Inl (Exception (ascii ''AttributeError''))
      | Some bs \<Rightarrow> then_do (utf8_decode Ignore bs)
                     (\<lambda>field_name. Inr (field_names @ [(start m, field_name)])))"

definition field_val :: "item \<Rightarrow> pyval" where
  "field_val f =
     PDict [(ascii ''offset'', PInt (int (item_offset f))),
            (ascii ''name'', PStr (item_value f))]"

definition count_val :: "str \<times> nat \<Rightarrow> pyval" where
  "count_val nc = PTuple [PStr (fst nc), PInt (int (snd nc))]"

definition BSONFieldAnalyzer_fields :: "bytes \<Rightarrow> exn + item list" where
  "BSONFieldAnalyzer_fields data = for_loop (bson_body data) (finditer bson_pattern data) []"

definition BSONFieldAnalyzer_analyze :: "bytes \<Rightarrow> exn + pyval" where
  "BSONFieldAnalyzer_analyze data =
     then_do (BSONFieldAnalyzer_fields data)
       (\<lambda>field_names.
          let name_counts = Counter (map item_value field_names) in
          Inr (PDict [(ascii ''total_fields'', PInt (int (length field_names))),
                      (ascii ''unique_fields'', PInt (int (length name_counts))),
                      (ascii ''top_fields'', PList (map count_val (most_common 50 name_counts))),
                      (ascii ''all_fields'', PList (map field_val (take 1000 field_names)))]))"

subsection \<open>EmailExtractor and IPAddressExtractor\<close>

text \<open>
  A Python \<^verbatim>\<open>set\<close> is kept as the list of its elements.  The order in which
  \<^verbatim>\<open>list(a_set)\<close> enumerates them depends on the hashes of the run; it is the parameter
  \<open>enum\<close> of the two extractors.
\<close>

definition set_add :: "'a list \<Rightarrow> 'a \<Rightarrow> 'a list" where
  "set_add xs x = (if x \<in> set xs then xs else xs @ [x])"

definition local_cls :: "char \<Rightarrow> bool" where
  "local_cls c = (is_alnum c \<or> c = CHR ''.'' \<or> c = CHR ''_'' \<or> c = CHR ''%''
                  \<or> c = CHR ''+'' \<or> c = CHR ''-'')"

definition domain_cls :: "char \<Rightarrow> bool" where
  "domain_cls c = (is_alnum c \<or> c = CHR ''.'' \<or> c = CHR ''-'')"

text \<open>\<^verbatim>\<open>rb'[a-zA-Z0-9._%+-]+@[a-zA-Z0-9.-]+\.[a-zA-Z]{2,}'\<close>\<close>

definition email_pattern :: regex where
  "email_pattern =
     Seq (Rep 1 None local_cls)
       (Seq (Chr CHR ''@'')
          (Seq (Rep 1 None domain_cls)
             (Seq (Chr CHR ''.'') (Rep 2 None is_alpha))))"

definition email_body :: "bytes \<Rightarrow> str list \<Rightarrow> rmatch \<Rightarrow> exn + str list" where
  "email_body data emails m =
     then_do (utf8_decode Ignore (group0 data m)) (\<lambda>email. Inr (set_add emails email))"

definition EmailExtractor_analyze :: "(str list \<Rightarrow> str list) \<Rightarrow> bytes \<Rightarrow> exn + pyval" where
  "EmailExtractor_analyze enum data =
     then_do (for_loop (email_body data) (finditer email_pattern data) [])
       (\<lambda>emails. Inr (PDict [(ascii ''findings'', PList (map PStr (sort (enum emails))))]))"

text \<open>\<^verbatim>\<open>(?:[0-9]{1,3}\.)\<close> in front of \<open>r\<close>, and its repetition \<^verbatim>\<open>{n}\<close>.\<close>

definition octet_dot :: "regex \<Rightarrow> regex" where
  "octet_dot r = Seq (Rep 1 (Some 3) is_digit) (Seq (Chr CHR ''.'') r)"

fun times :: "nat \<Rightarrow> (regex \<Rightarrow> regex) \<Rightarrow> regex \<Rightarrow> regex" where
  "times 0 f r = r"
| "times (Suc n) f r = f (times n f r)"

text \<open>\<^verbatim>\<open>rb'\b(?:[0-9]{1,3}\.){3}[0-9]{1,3}\b'\<close>\<close>

definition ip_pattern :: regex where
  "ip_pattern = Seq Bnd (times 3 octet_dot (Seq (Rep 1 (Some 3) is_digit) Bnd))"

text \<open>\<^verbatim>\<open>s.split(sep)\<close> for a separator of one character.\<close>

fun split_on :: "nat \<Rightarrow> str \<Rightarrow> str list" where
  "split_on sep [] = [[]]"
| "split_on sep (c # cs) =
     (if c = sep then [] # split_on sep cs
      else (case split_on sep cs of [] \<Rightarrow> [[c]] | p # ps \<Rightarrow> (c # p) # ps))"

text \<open>
  \<^verbatim>\<open>int(p)\<close> on a run of ASCII digits.  On every other text the model raises
  \<^verbatim>\<open>ValueError\<close>; Python's \<^verbatim>\<open>int\<close> also reads signs, blanks, underscores and other
  digits, which \<open>ip_pattern\<close> never yields.
\<close>

definition py_int :: "str \<Rightarrow> exn + int" where
  "py_int p =
     (if p \<noteq> [] \<and> list_all (\<lambda>c. 48 \<le> c \<and> c \<le> 57) p
      then Inr (foldl (\<lambda>n c. 10 * n + int (c - 48)) 0 p)
      else Inl (Exception (ascii ''ValueError'')))"

text \<open>\<^verbatim>\<open>all(0 <= int(p) <= 255 for p in parts)\<close>\<close>

fun all_valid :: "str list \<Rightarrow> exn + bool" where
  "all_valid [] = Inr True"
| "all_valid (p # parts) =
     then_do (py_int p) (\<lambda>n. if 0 \<le> n \<and> n \<le> 255 then all_valid parts else Inr False)"

definition ip_body :: "bytes \<Rightarrow> str list \<Rightarrow> rmatch \<Rightarrow> exn + str list" where
  "ip_body data ips m =
     then_do (utf8_decode Strict (group0 data m))
       (\<lambda>ip. then_do (all_valid (split_on 46 ip))
          (\<lambda>ok. Inr (if ok then set_add ips ip else ips)))"

definition IPAddressExtractor_analyze :: "(str list \<Rightarrow> str list) \<Rightarrow> bytes \<Rightarrow> exn + pyval" where
  "IPAddressExtractor_analyze enum data =
     then_do (for_loop (ip_body data) (finditer ip_pattern data) [])
       (\<lambda>ips. Inr (PDict [(ascii ''findings'', PList (map PStr (sort (enum ips))))]))"

subsection \<open>HexDumpAnalyzer\<close>

definition hex_digit :: "nat \<Rightarrow> nat" where
  "hex_digit n = (if n < 10 then 48 + n else 87 + n)"

text \<open>\<^verbatim>\<open>bs.hex()\<close>\<close>

definition bytes_hex :: "bytes \<Rightarrow> str" where
  "bytes_hex bs = concat (map (\<lambda>c. [hex_digit (ord c div 16), hex_digit (ord c mod 16)]) bs)"

text \<open>The loop \<^verbatim>\<open>for i in range(0, len(data) - 4, 4): patterns[data[i:i+4]] += 1\<close>.\<close>

definition hex_patterns :: "bytes \<Rightarrow> (bytes \<times> nat) list" where
  "hex_patterns data =
     foldl (\<lambda>patterns i. dd_incr patterns (slice data (nat i) (nat i + 4))) []
       (py_range 0 (int (length data) - 4) 4)"

definition top_patterns :: "bytes \<Rightarrow> (bytes \<times> nat) list" where
  "top_patterns data = take 10 (sorted_by_count_desc (hex_patterns data))"

definition pattern_val :: "bytes \<times> nat \<Rightarrow> pyval" where
  "pattern_val pc = PTuple [PStr (bytes_hex (fst pc)), PInt (int (snd pc))]"

text \<open>The percentages are Python floats; the model keeps them as exact quotients.\<close>

definition percentage :: "nat \<Rightarrow> nat \<Rightarrow> pyval" where
  "percentage n total_size =
     (if total_size > 0 then PFloat (real n / real total_size * 100) else PInt 0)"

definition HexDumpAnalyzer_analyze :: "bytes \<Rightarrow> exn + pyval" where
  "HexDumpAnalyzer_analyze data =
     (let total_size = length data;
          null_bytes = count_list data (CHR 0x00);
          printable_bytes = length (filter (\<lambda>b. 32 \<le> ord b \<and> ord b \<le> 126) data)
      in Inr (PDict [(ascii ''total_size'', PInt (int total_size)),
                     (ascii ''null_bytes'', PInt (int null_bytes)),
                     (ascii ''null_percentage'', percentage null_bytes total_size),
                     (ascii ''printable_bytes'', PInt (int printable_bytes)),
                     (ascii ''printable_percentage'', percentage printable_bytes total_size),
                     (ascii ''top_patterns'', PList (map pattern_val (top_patterns data)))]))"

section \<open>The aggregator\<close>

record analyzer =
  get_name :: str
  analyze :: "bytes \<Rightarrow> exn + pyval"

record generator =
  analyzers :: "analyzer list"
  results :: "(str \<times> pyval) list"

definition HTMLReportGenerator_init :: generator where
  "HTMLReportGenerator_init = \<lparr>analyzers = [], results = []\<rparr>"

definition add_analyzer :: "generator \<Rightarrow> analyzer \<Rightarrow> generator" where
  "add_analyzer self a = self\<lparr>analyzers := analyzers self @ [a]\<rparr>"

text \<open>\<^verbatim>\<open>{'error': str(e)}\<close>\<close>

definition error_record :: "str \<Rightarrow> pyval" where
  "error_record msg = PDict [(ascii ''error'', PStr msg)]"

text \<open>One turn of the loop of \<^verbatim>\<open>analyze_all\<close> (the progress lines it prints are left out).\<close>

definition run_analyzer :: "bytes \<Rightarrow> (str \<times> pyval) list \<Rightarrow> analyzer \<Rightarrow> (str \<times> pyval) list" where
  "run_analyzer data res a =
     (case analyze a data of
        Inr result \<Rightarrow> dict_set res (get_name a) result
      | Inl (Exception msg) \<Rightarrow> dict_set res (get_name a) (error_record msg))"

definition analyze_all :: "generator \<Rightarrow> bytes \<Rightarrow> generator" where
  "analyze_all self data =
     self\<lparr>results := foldl (run_analyzer data) (results self) (analyzers self)\<rparr>"

text \<open>The seven analyzers that \<^verbatim>\<open>main\<close> registers, in its order, with their display names.\<close>

definition main_analyzers :: "(str \<Rightarrow> exn + pyval) \<Rightarrow> (str list \<Rightarrow> str list) \<Rightarrow> analyzer list" where
  "main_analyzers loads enum =
     [\<lparr>get_name = [0x5185, 0x5B58, 0x5E03, 0x5C40, 0x5206, 0x6790],
       analyze = HexDumpAnalyzer_analyze\<rparr>,
      \<lparr>get_name = [0x51ED, 0x8BC1, 0x641C, 0x7D22],
       analyze = CredentialHunter_analyze\<rparr>,
      \<lparr>get_name = [0x42, 0x53, 0x4F, 0x4E, 0x5B57, 0x6BB5, 0x5206, 0x6790],
       analyze = BSONFieldAnalyzer_analyze\<rparr>,
      \<lparr>get_name = [0x5B57, 0x7B26, 0x4E32, 0x63D0, 0x53D6],
       analyze = StringExtractor_analyze\<rparr>,
      \<lparr>get_name = [0x4A, 0x53, 0x4F, 0x4E, 0x6570, 0x636E, 0x63D0, 0x53D6],
       analyze = JSONExtractor_analyze loads\<rparr>,
      \<lparr>get_name = [0x90AE, 0x7BB1, 0x5730, 0x5740, 0x63D0, 0x53D6],
       analyze = EmailExtractor_analyze enum\<rparr>,
      \<lparr>get_name = [0x49, 0x50, 0x5730, 0x5740, 0x63D0, 0x53D6],
       analyze = IPAddressExtractor_analyze enum\<rparr>]"

definition run_main :: "(str \<Rightarrow> exn + pyval) \<Rightarrow> (str list \<Rightarrow> str list) \<Rightarrow> bytes \<Rightarrow> generator" where
  "run_main loads enum data =
     analyze_all (foldl add_analyzer HTMLReportGenerator_init (main_analyzers loads enum)) data"

text \<open>What the loop of \<^verbatim>\<open>analyze_all\<close> stores for one analyzer.\<close>

definition slot :: "bytes \<Rightarrow> analyzer \<Rightarrow> pyval" where
  "slot data a = (case analyze a data of Inr r \<Rightarrow> r | Inl (Exception msg) \<Rightarrow> error_record msg)"

section \<open>Reference definitions\<close>

text \<open>
  The item that \<^verbatim>\<open>CredentialHunter.analyze\<close> appends for a match (the lossy decoding
  always returns), and the items of one category before deduplication: the matches of
  each of its patterns, pattern after pattern.
\<close>

definition cred_item :: "bytes \<Rightarrow> rmatch \<Rightarrow> item" where
  "cred_item data m = (start m, take 200 (projr (utf8_decode Replace (cred_group data m))))"

definition category_items :: "bytes \<Rightarrow> regex list \<Rightarrow> item list" where
  "category_items data pattern_list =
     concat (map (\<lambda>pattern. map (cred_item data) (finditer pattern data)) pattern_list)"

text \<open>
  The chunks as the specification words them: the buffer cut into four-byte chunks that
  do not overlap, at stride 4 over the whole buffer, and their ten most frequent ones.
\<close>

fun spec_chunks :: "bytes \<Rightarrow> bytes list" where
  "spec_chunks (a # b # c # d # rest) = [a, b, c, d] # spec_chunks rest"
| "spec_chunks rest = []"

definition spec_top_patterns :: "bytes \<Rightarrow> (bytes \<times> nat) list" where
  "spec_top_patterns data = take 10 (sorted_by_count_desc (Counter (spec_chunks data)))"

text \<open>
  The byte strings a pattern can consume (the context that \<^verbatim>\<open>\b\<close> tests is left out),
  and the least number of bytes it consumes.
\<close>

fun lang :: "regex \<Rightarrow> bytes \<Rightarrow> bool" where
  "lang (Cls P) w = (\<exists>c. w = [c] \<and> P c)"
| "lang Bnd w = (w = [])"
| "lang (Seq a b) w = (\<exists>u v. w = u @ v \<and> lang a u \<and> lang b v)"
| "lang (Rep lo hi P) w =
     (lo \<le> length w \<and> (case hi of None \<Rightarrow> True | Some h \<Rightarrow> length w \<le> h) \<and> list_all P w)"
| "lang (Grp r) w = lang r w"

fun min_len :: "regex \<Rightarrow> nat" where
  "min_len (Cls P) = 1"
| "min_len Bnd = 0"
| "min_len (Seq a b) = min_len a + min_len b"
| "min_len (Rep lo hi P) = lo"
| "min_len (Grp r) = min_len r"

text \<open>Access to a key of a result value.\<close>

definition field :: "string \<Rightarrow> pyval \<Rightarrow> pyval option" where
  "field k v = (case v of PDict d \<Rightarrow> dict_get d (ascii k) | _ \<Rightarrow> None)"

text \<open>A match that begins inside the buffer, at a position where the pattern matches.\<close>

definition begins_match :: "regex \<Rightarrow> bytes \<Rightarrow> rmatch \<Rightarrow> bool" where
  "begins_match r data m = (start m < length data \<and> match_at r data (start m) = Some m)"

text \<open>
  What one candidate of the JSONExtractor contributes: nothing when \<open>loads\<close> raises, its
  finding otherwise.
\<close>

definition json_finding :: "(str \<Rightarrow> exn + pyval) \<Rightarrow> bytes \<Rightarrow> rmatch \<Rightarrow> pyval list" where
  "json_finding loads data m =
     (case loads (projr (utf8_decode Ignore (group0 data m))) of
        Inl e \<Rightarrow> []
      | Inr parsed \<Rightarrow> [PDict [(ascii ''offset'', PInt (int (start m))), (ascii ''data'', parsed)]])"

text \<open>The validation of the IPAddressExtractor, which never raises on a match.\<close>

definition ip_ok :: "str \<Rightarrow> bool" where
  "ip_ok ip = projr (all_valid (split_on 46 ip))"

text \<open>Every byte class of the pattern lies within \<open>Q\<close>.\<close>

fun cls_all :: "(char \<Rightarrow> bool) \<Rightarrow> regex \<Rightarrow> bool" where
  "cls_all Q (Cls P) = (\<forall>c. P c \<longrightarrow> Q c)"
| "cls_all Q Bnd = True"
| "cls_all Q (Seq a b) = (cls_all Q a \<and> cls_all Q b)"
| "cls_all Q (Rep lo hi P) = (\<forall>c. P c \<longrightarrow> Q c)"
| "cls_all Q (Grp r) = cls_all Q r"

definition is_ascii :: "char \<Rightarrow> bool" where
  "is_ascii c = (ord c < 0x80)"

text \<open>The field occurrence and the candidate texts that the loops collect for a match.\<close>

definition bson_field :: "bytes \<Rightarrow> rmatch \<Rightarrow> item" where
  "bson_field data m = (start m, map ord (case group1 data m of None \<Rightarrow> [] | Some bs \<Rightarrow> bs))"

definition match_text :: "bytes \<Rightarrow> rmatch \<Rightarrow> str" where
  "match_text data m = map ord (group0 data m)"

text \<open>A non-empty run of ASCII digits, as text.\<close>

definition digits :: "str \<Rightarrow> bool" where
  "digits p = (p \<noteq> [] \<and> list_all (\<lambda>c. 48 \<le> c \<and> c \<le> 57) p)"

text \<open>
  The token that \<open>bson_pattern\<close> captures: a letter or underscore, then 1 to 50 letters,
  digits, underscores or dots.
\<close>

definition field_token :: "bytes \<Rightarrow> bool" where
  "field_token w =
     (case w of
        [] \<Rightarrow> False
      | c # cs \<Rightarrow> field_first c \<and> 1 \<le> length cs \<and> length cs \<le> 50 \<and> list_all field_rest cs)"

text \<open>
  The candidate token as the specification words it: letters, digits, underscores and
  dots, 2 to 51 characters.
\<close>

definition spec_token :: "bytes \<Rightarrow> bool" where
  "spec_token w = (2 \<le> length w \<and> length w \<le> 51 \<and> list_all field_rest w)"

text \<open>\<^verbatim>\<open>match.end()\<close>\<close>

definition end_of :: "rmatch \<Rightarrow> nat" where
  "end_of m = fst (snd m)"

section \<open>The aggregator: failure isolation and order\<close>

lemma dict_set_fresh: "k \<notin> fst ` set d \<Longrightarrow> dict_set d k v = d @ [(k, v)]"
  by (induction d) auto

lemma run_analyzer_slot: "run_analyzer data res a = dict_set res (get_name a) (slot data a)"
  by (simp add: run_analyzer_def slot_def split: sum.splits exn.splits)

lemma foldl_run_analyzer:
  "distinct (map get_name as) \<Longrightarrow> get_name ` set as \<inter> fst ` set res = {} \<Longrightarrow>
   foldl (run_analyzer data) res as = res @ map (\<lambda>a. (get_name a, slot data a)) as"
proof (induction as arbitrary: res)
  case Nil
  then show ?case by simp
next
  case (Cons a as)
  have fresh: "get_name a \<notin> fst ` set res" using Cons.prems(2) by auto
  have step: "run_analyzer data res a = res @ [(get_name a, slot data a)]"
    by (simp add: run_analyzer_slot dict_set_fresh [OF fresh])
  have "get_name ` set as \<inter> fst ` set (res @ [(get_name a, slot data a)]) = {}"
    using Cons.prems by auto
  with Cons show ?case by (simp add: step)
qed

lemma registered: "analyzers (foldl add_analyzer g as) = analyzers g @ as"
  by (induction as arbitrary: g) (simp_all add: add_analyzer_def)

lemma registered_results: "results (foldl add_analyzer g as) = results g"
  by (induction as arbitrary: g) (simp_all add: add_analyzer_def)

lemma results_analyze_all:
  "distinct (map get_name as) \<Longrightarrow>
   results (analyze_all (foldl add_analyzer HTMLReportGenerator_init as) data)
     = map (\<lambda>a. (get_name a, slot data a)) as"
  by (simp add: analyze_all_def registered registered_results HTMLReportGenerator_init_def
      foldl_run_analyzer)

lemma map_of_slots:
  "distinct (map f as) \<Longrightarrow> a \<in> set as \<Longrightarrow> map_of (map (\<lambda>a. (f a, g a)) as) (f a) = Some (g a)"
  by (induction as) (auto simp: image_iff)

lemma main_names:
  "map get_name (main_analyzers loads enum) =
     [[0x5185, 0x5B58, 0x5E03, 0x5C40, 0x5206, 0x6790],
      [0x51ED, 0x8BC1, 0x641C, 0x7D22],
      [0x42, 0x53, 0x4F, 0x4E, 0x5B57, 0x6BB5, 0x5206, 0x6790],
      [0x5B57, 0x7B26, 0x4E32, 0x63D0, 0x53D6],
      [0x4A, 0x53, 0x4F, 0x4E, 0x6570, 0x636E, 0x63D0, 0x53D6],
      [0x90AE, 0x7BB1, 0x5730, 0x5740, 0x63D0, 0x53D6],
      [0x49, 0x50, 0x5730, 0x5740, 0x63D0, 0x53D6]]"
  by (simp add: main_analyzers_def)

lemma main_names_distinct: "distinct (map get_name (main_analyzers loads enum))"
  unfolding main_names by simp

text \<open>
  C8.  For analyzers with distinct names, registered one after the other on a fresh
  aggregator, the ResultSet of the run has one entry per analyzer and its keys are the
  names in registration order.
\<close>

theorem C8_keys_in_registration_order:
  assumes "distinct (map get_name as)"
  shows "map fst (results (analyze_all (foldl add_analyzer HTMLReportGenerator_init as) data))
           = map get_name as"
  using assms by (simp add: results_analyze_all comp_def)

theorem C8_keys_in_registration_order_witness:
  "map fst (results (run_main (\<lambda>t. Inl (Exception [])) id []))
     = [[0x5185, 0x5B58, 0x5E03, 0x5C40, 0x5206, 0x6790],
        [0x51ED, 0x8BC1, 0x641C, 0x7D22],
        [0x42, 0x53, 0x4F, 0x4E, 0x5B57, 0x6BB5, 0x5206, 0x6790],
        [0x5B57, 0x7B26, 0x4E32, 0x63D0, 0x53D6],
        [0x4A, 0x53, 0x4F, 0x4E, 0x6570, 0x636E, 0x63D0, 0x53D6],
        [0x90AE, 0x7BB1, 0x5730, 0x5740, 0x63D0, 0x53D6],
        [0x49, 0x50, 0x5730, 0x5740, 0x63D0, 0x53D6]]"
  using C8_keys_in_registration_order [OF main_names_distinct, of "\<lambda>t. Inl (Exception [])" id "[]"]
  unfolding run_main_def main_names .

section \<open>The aggregator: a raising analyzer\<close>

lemma map_of_dict_set: "map_of (dict_set d k v) = (map_of d)(k \<mapsto> v)"
  by (induction d) (auto simp: fun_eq_iff)

lemma keys_dict_set: "fst ` set (dict_set d k v) = insert k (fst ` set d)"
  by (induction d) force+

lemma distinct_dict_set: "distinct (map fst d) \<Longrightarrow> distinct (map fst (dict_set d k v))"
  by (induction d) (auto simp: keys_dict_set)

lemma keys_foldl_run:
  "fst ` set (foldl (run_analyzer data) res as) = fst ` set res \<union> get_name ` set as"
  by (induction as arbitrary: res) (simp_all add: run_analyzer_slot keys_dict_set)

lemma distinct_foldl_run:
  "distinct (map fst res) \<Longrightarrow> distinct (map fst (foldl (run_analyzer data) res as))"
  by (induction as arbitrary: res) (simp_all add: run_analyzer_slot distinct_dict_set)

lemma map_of_foldl_run_other:
  "k \<notin> get_name ` set as \<Longrightarrow> map_of (foldl (run_analyzer data) res as) k = map_of res k"
  by (induction as arbitrary: res) (simp_all add: run_analyzer_slot map_of_dict_set)

lemma map_of_foldl_run_last:
  assumes "get_name a \<notin> get_name ` set post"
  shows "map_of (foldl (run_analyzer data) res (pre @ a # post)) (get_name a) = Some (slot data a)"
  using assms by (simp add: map_of_foldl_run_other run_analyzer_slot map_of_dict_set)

lemma results_fresh:
  "results (analyze_all (foldl add_analyzer HTMLReportGenerator_init as) data)
     = foldl (run_analyzer data) [] as"
  by (simp add: analyze_all_def registered registered_results HTMLReportGenerator_init_def)

text \<open>
  C1 (as amended).  For every buffer and every list of registered analyzers the run returns
  a ResultSet that has exactly one entry for every registered name.  When an analyzer
  raises an exception with message \<open>msg\<close> and no analyzer registered after it has its
  name, the entry under its name is the error record \<^verbatim>\<open>{'error': msg}\<close>; and every
  registered analyzer that is the last one registered under its name has, under that
  name, its own result or its own error record.  With distinct names this is every
  registered analyzer.
\<close>

theorem C1_failing_analyzer_is_isolated:
  assumes "analyze a data = Inl (Exception msg)"
    and "get_name a \<notin> get_name ` set post"
  shows "dict_get (results (analyze_all
                      (foldl add_analyzer HTMLReportGenerator_init (pre @ a # post)) data))
           (get_name a) = Some (PDict [(ascii ''error'', PStr msg)])
       \<and> (\<forall>pre' b post'.
             pre @ a # post = pre' @ b # post' \<and> get_name b \<notin> get_name ` set post' \<longrightarrow>
             dict_get (results (analyze_all
                         (foldl add_analyzer HTMLReportGenerator_init (pre @ a # post)) data))
               (get_name b)
             = Some (case analyze b data of
                       Inr r \<Rightarrow> r
                     | Inl (Exception m) \<Rightarrow> PDict [(ascii ''error'', PStr m)]))
       \<and> set (map fst (results (analyze_all
                      (foldl add_analyzer HTMLReportGenerator_init (pre @ a # post)) data)))
           = get_name ` set (pre @ a # post)
       \<and> distinct (map fst (results (analyze_all
                      (foldl add_analyzer HTMLReportGenerator_init (pre @ a # post)) data)))"
proof (intro conjI allI impI)
  have "slot data a = PDict [(ascii ''error'', PStr msg)]"
    using assms(1) by (simp add: slot_def error_record_def)
  with map_of_foldl_run_last [OF assms(2), of data "[]" pre]
  show "dict_get (results (analyze_all
                      (foldl add_analyzer HTMLReportGenerator_init (pre @ a # post)) data))
           (get_name a) = Some (PDict [(ascii ''error'', PStr msg)])"
    unfolding results_fresh dict_get_def by simp
next
  fix pre' b post'
  assume "pre @ a # post = pre' @ b # post' \<and> get_name b \<notin> get_name ` set post'"
  then have eq: "pre @ a # post = pre' @ b # post'" and last: "get_name b \<notin> get_name ` set post'"
    by simp_all
  have "slot data b = (case analyze b data of
                       Inr r \<Rightarrow> r
                     | Inl (Exception m) \<Rightarrow> PDict [(ascii ''error'', PStr m)])"
    by (simp add: slot_def error_record_def split: sum.splits exn.splits)
  with map_of_foldl_run_last [OF last, of data "[]" pre']
  show "dict_get (results (analyze_all
                         (foldl add_analyzer HTMLReportGenerator_init (pre @ a # post)) data))
               (get_name b)
             = Some (case analyze b data of
                       Inr r \<Rightarrow> r
                     | Inl (Exception m) \<Rightarrow> PDict [(ascii ''error'', PStr m)])"
    unfolding eq results_fresh dict_get_def by simp
next
  show "set (map fst (results (analyze_all
                      (foldl add_analyzer HTMLReportGenerator_init (pre @ a # post)) data)))
           = get_name ` set (pre @ a # post)"
    unfolding results_fresh set_map keys_foldl_run by simp
next
  show "distinct (map fst (results (analyze_all
                      (foldl add_analyzer HTMLReportGenerator_init (pre @ a # post)) data)))"
    unfolding results_fresh by (rule distinct_foldl_run) simp
qed

theorem C1_failing_analyzer_is_isolated_witness:
  "results (analyze_all (foldl add_analyzer HTMLReportGenerator_init
       ([\<lparr>get_name = ascii ''size'', analyze = (\<lambda>data. Inr (PInt (int (length data))))\<rparr>]
        @ \<lparr>get_name = ascii ''boom'', analyze = (\<lambda>data. Inl (Exception (ascii ''failed'')))\<rparr>
        # [\<lparr>get_name = ascii ''twice'', analyze = (\<lambda>data. Inr (PList [PInt 2]))\<rparr>])) ''abc'')
     = [(ascii ''size'', PInt 3),
        (ascii ''boom'', PDict [(ascii ''error'', PStr (ascii ''failed''))]),
        (ascii ''twice'', PList [PInt 2])]
   \<and> dict_get (results (analyze_all (foldl add_analyzer HTMLReportGenerator_init
       ([\<lparr>get_name = ascii ''size'', analyze = (\<lambda>data. Inr (PInt (int (length data))))\<rparr>]
        @ \<lparr>get_name = ascii ''boom'', analyze = (\<lambda>data. Inl (Exception (ascii ''failed'')))\<rparr>
        # [\<lparr>get_name = ascii ''twice'', analyze = (\<lambda>data. Inr (PList [PInt 2]))\<rparr>])) ''abc''))
       (ascii ''boom'') = Some (PDict [(ascii ''error'', PStr (ascii ''failed''))])"
proof -
  have raises: "analyze \<lparr>get_name = ascii ''boom'',
                         analyze = (\<lambda>data. Inl (Exception (ascii ''failed'')))\<rparr> ''abc''
                  = Inl (Exception (ascii ''failed''))"
    by simp
  have last: "get_name \<lparr>get_name = ascii ''boom'',
                          analyze = (\<lambda>data. Inl (Exception (ascii ''failed'')))\<rparr>
                \<notin> get_name ` set [\<lparr>get_name = ascii ''twice'',
                                       analyze = (\<lambda>data. Inr (PList [PInt 2]))\<rparr>]"
    by (simp add: ascii_def ord_def)
  have ev: "results (analyze_all (foldl add_analyzer HTMLReportGenerator_init
       ([\<lparr>get_name = ascii ''size'', analyze = (\<lambda>data. Inr (PInt (int (length data))))\<rparr>]
        @ \<lparr>get_name = ascii ''boom'', analyze = (\<lambda>data. Inl (Exception (ascii ''failed'')))\<rparr>
        # [\<lparr>get_name = ascii ''twice'', analyze = (\<lambda>data. Inr (PList [PInt 2]))\<rparr>])) ''abc'')
     = [(ascii ''size'', PInt 3),
        (ascii ''boom'', PDict [(ascii ''error'', PStr (ascii ''failed''))]),
        (ascii ''twice'', PList [PInt 2])]"
    by (simp add: analyze_all_def add_analyzer_def HTMLReportGenerator_init_def run_analyzer_def
        error_record_def ascii_def ord_def)
  note C1_failing_analyzer_is_isolated
    [OF raises last,
     of "[\<lparr>get_name = ascii ''size'', analyze = (\<lambda>data. Inr (PInt (int (length data))))\<rparr>]",
     THEN conjunct1]
  then have "dict_get (results (analyze_all (foldl add_analyzer HTMLReportGenerator_init
       ([\<lparr>get_name = ascii ''size'', analyze = (\<lambda>data. Inr (PInt (int (length data))))\<rparr>]
        @ \<lparr>get_name = ascii ''boom'', analyze = (\<lambda>data. Inl (Exception (ascii ''failed'')))\<rparr>
        # [\<lparr>get_name = ascii ''twice'', analyze = (\<lambda>data. Inr (PList [PInt 2]))\<rparr>])) ''abc''))
       (ascii ''boom'') = Some (PDict [(ascii ''error'', PStr (ascii ''failed''))])"
    by (simp only: analyzer.select_convs)
  with ev show ?thesis by (rule conjI)
qed

text \<open>
  C1, counterexample: two analyzers are registered under the name \<^verbatim>\<open>dup\<close>; the first
  raises, the second returns 1.  The ResultSet has the single entry of the second one:
  the error record of the raising analyzer is overwritten.
\<close>

theorem C1_repeated_name_overwrites_error_record:
  "results (analyze_all (foldl add_analyzer HTMLReportGenerator_init
       [\<lparr>get_name = ascii ''dup'', analyze = (\<lambda>data. Inl (Exception (ascii ''failed'')))\<rparr>,
        \<lparr>get_name = ascii ''dup'', analyze = (\<lambda>data. Inr (PInt 1))\<rparr>]) ''abc'')
     = [(ascii ''dup'', PInt 1)]
   \<and> analyze \<lparr>get_name = ascii ''dup'', analyze = (\<lambda>data. Inl (Exception (ascii ''failed'')))\<rparr>
        ''abc'' = Inl (Exception (ascii ''failed''))
   \<and> dict_get (results (analyze_all (foldl add_analyzer HTMLReportGenerator_init
       [\<lparr>get_name = ascii ''dup'', analyze = (\<lambda>data. Inl (Exception (ascii ''failed'')))\<rparr>,
        \<lparr>get_name = ascii ''dup'', analyze = (\<lambda>data. Inr (PInt 1))\<rparr>]) ''abc''))
       (ascii ''dup'') \<noteq> Some (PDict [(ascii ''error'', PStr (ascii ''failed''))])"
  by (simp add: analyze_all_def add_analyzer_def HTMLReportGenerator_init_def run_analyzer_def
      error_record_def dict_get_def ascii_def ord_def)

section \<open>Exceptions, loops and decoders\<close>

lemma then_do_Inr [simp]: "then_do (Inr v) f = f v"
  by (simp add: then_do_def)

lemma then_do_Inl [simp]: "then_do (Inl e) f = Inl e"
  by (simp add: then_do_def)

lemma for_loop_total:
  "(\<And>st x. x \<in> set xs \<Longrightarrow> body st x = Inr (g st x)) \<Longrightarrow> for_loop body xs st = Inr (foldl g st xs)"
  by (induction xs arbitrary: st) simp_all

lemma on_error_lossy:
  "h \<noteq> Strict \<Longrightarrow> on_error h (Inr t) = Inr (case h of Replace \<Rightarrow> 0xFFFD # t | _ \<Rightarrow> t)"
  by (cases h) (simp_all add: on_error_def)

lemma ascii_decode_lossy: "h \<noteq> Strict \<Longrightarrow> \<exists>t. ascii_decode h bs = Inr t"
proof (induction bs)
  case Nil
  then show ?case by simp
next
  case (Cons c bs)
  then obtain t where "ascii_decode h bs = Inr t" by blast
  with Cons.prems show ?case by (simp add: on_error_lossy)
qed

lemma utf8_decode_lossy: "h \<noteq> Strict \<Longrightarrow> \<exists>t. utf8_decode h bs = Inr t"
proof (induction h bs rule: utf8_decode.induct)
  case (1 h)
  then show ?case by simp
next
  case (2 h c rest)
  obtain cp n where step: "utf8_step c rest = (cp, n)" by (cases "utf8_step c rest")
  show ?case
  proof (cases cp)
    case None
    with 2(1) [OF step [symmetric]] 2(3) obtain t where "utf8_decode h (drop (n - 1) rest) = Inr t"
      by blast
    with step None 2(3) show ?thesis by (simp add: on_error_lossy)
  next
    case (Some x)
    with 2(2) [OF step [symmetric]] 2(3) obtain t where "utf8_decode h (drop (n - 1) rest) = Inr t"
      by blast
    with step Some show ?thesis by simp
  qed
qed

lemma utf8_decode_projr: "h \<noteq> Strict \<Longrightarrow> utf8_decode h bs = Inr (projr (utf8_decode h bs))"
  using utf8_decode_lossy [of h bs] by auto

lemma ascii_decode_projr: "h \<noteq> Strict \<Longrightarrow> ascii_decode h bs = Inr (projr (ascii_decode h bs))"
  using ascii_decode_lossy [of h bs] by auto

lemma foldl_concat: "foldl f a (concat xss) = foldl (\<lambda>a xs. foldl f a xs) a xss"
  by (induction xss arbitrary: a) simp_all

text \<open>Rewrite rules that evaluate the model on a concrete buffer.\<close>

lemmas class_eval =
  ord_def in_range_def is_lower_def is_upper_def is_digit_def is_alpha_def is_alnum_def
  is_space_def is_word_def to_lower_def to_upper_def ic_def char_of_def bit_0
  printable_def sep_cls_def space_or_nul_def key_cls_def token_cls_def
  field_first_def field_rest_def local_cls_def domain_cls_def is_cont_def

lemmas regex_eval =
  finditer_def match_at_def run_len_def word_at_def at_boundary_def Chr_def ChrI_def
  sepI_def nonspaceI_def kvI_def octet_dot_def
  group0_def group1_def start_def slice_def

lemmas python_eval =
  ascii_def then_do_def on_error_def utf8_step_def second_ok_def

lemmas cred_eval =
  CredentialHunter_analyze_def CredentialHunter_findings_def credential_patterns_def
  cred_category_loop_def cred_pattern_loop_def cred_body_def cred_group_def item_value_def

lemmas hex_eval =
  top_patterns_def hex_patterns_def sorted_by_count_desc_def slice_def pattern_val_def
  bytes_hex_def hex_digit_def ord_def ascii_def

lemmas extractor_eval =
  StringExtractor_analyze_def string_body_def string_pattern_def string_finding_def
  EmailExtractor_analyze_def email_body_def email_pattern_def
  IPAddressExtractor_analyze_def ip_body_def ip_pattern_def py_int_def
  set_add_def

lemmas bson_eval =
  BSONFieldAnalyzer_analyze_def BSONFieldAnalyzer_fields_def bson_body_def bson_pattern_def
  Counter_def most_common_def sorted_by_count_desc_def count_val_def field_val_def
  item_value_def item_offset_def

lemma times_3: "times 3 f r = f (f (f r))"
  by (simp add: numeral_3_eq_3)

section \<open>The matcher\<close>

lemma countdown_iff: "j \<in> set (countdown lo k) \<longleftrightarrow> lo \<le> j \<and> j \<le> k"
proof (induction k)
  case 0
  then show ?case by auto
next
  case (Suc k)
  show ?case
  proof (cases "lo \<le> Suc k")
    case True
    then have "j \<in> set (countdown lo (Suc k)) \<longleftrightarrow> j = Suc k \<or> (lo \<le> j \<and> j \<le> k)"
      using Suc by simp
    also have "\<dots> \<longleftrightarrow> lo \<le> j \<and> j \<le> Suc k" using True by arith
    finally show ?thesis .
  next
    case False
    then show ?thesis by simp
  qed
qed

lemma run_len_le: "run_len P hi xs \<le> length (takeWhile P xs)"
  by (cases hi) (simp_all add: run_len_def Let_def)

lemma run_len_hi: "run_len P (Some h) xs \<le> h"
  by (simp add: run_len_def Let_def)

lemma slice_append: "i \<le> j \<Longrightarrow> j \<le> e \<Longrightarrow> slice s i e = slice s i j @ slice s j e"
proof -
  assume le: "i \<le> j" "j \<le> e"
  then have len: "e - i = (j - i) + (e - j)" by arith
  have "drop (j - i) (drop i s) = drop j s" using le by simp
  then show ?thesis unfolding slice_def len take_add by simp
qed

lemma slice_same [simp]: "slice s i i = []"
  by (simp add: slice_def)

lemma slice_one: "i < length s \<Longrightarrow> slice s i (Suc i) = [s ! i]"
  by (simp add: slice_def take_Suc_conv_app_nth [of 0] hd_drop_conv_nth take_Suc)

lemma take_takeWhile:
  assumes "k \<le> length (takeWhile P xs)"
  shows "take k xs = take k (takeWhile P xs)"
proof -
  have "take k xs = take k (takeWhile P xs @ dropWhile P xs)" by simp
  also have "\<dots> = take k (takeWhile P xs)" using assms by (simp del: takeWhile_dropWhile_id)
  finally show ?thesis .
qed

lemma slice_run:
  assumes "k \<le> run_len P hi (drop i s)"
  shows "list_all P (slice s i (i + k)) \<and> length (slice s i (i + k)) = k"
proof -
  have k: "k \<le> length (takeWhile P (drop i s))" using assms run_len_le order_trans by blast
  then have eq: "slice s i (i + k) = take k (takeWhile P (drop i s))"
    by (simp add: slice_def take_takeWhile)
  have "set (take k (takeWhile P (drop i s))) \<subseteq> set (takeWhile P (drop i s))"
    by (rule set_take_subset)
  then have "list_all P (take k (takeWhile P (drop i s)))"
    by (auto simp: list_all_iff dest: set_takeWhileD)
  with k show ?thesis by (simp add: eq)
qed

lemma ends_sound:
  "i \<le> length s \<Longrightarrow> (e, g') \<in> set (ends r s (i, g)) \<Longrightarrow>
   i + min_len r \<le> e \<and> e \<le> length s \<and> lang r (slice s i e)"
proof (induction r arbitrary: i g e g')
  case (Cls P)
  then show ?case by (auto simp: slice_one split: if_splits)
next
  case Bnd
  then show ?case by (auto split: if_splits)
next
  case (Seq a b)
  from Seq.prems(2) obtain j g1 where mid: "(j, g1) \<in> set (ends a s (i, g))"
    and fin: "(e, g') \<in> set (ends b s (j, g1))"
    by auto
  from Seq.IH(1) [OF Seq.prems(1) mid] have a: "i + min_len a \<le> j" "j \<le> length s" "lang a (slice s i j)"
    by simp_all
  from Seq.IH(2) [OF a(2) fin] have b: "j + min_len b \<le> e" "e \<le> length s" "lang b (slice s j e)"
    by simp_all
  have "slice s i e = slice s i j @ slice s j e"
    using a(1) b(1) by (intro slice_append) simp_all
  with a b show ?case by auto
next
  case (Rep lo hi P)
  from Rep.prems(2) obtain k where k: "e = i + k" "lo \<le> k" "k \<le> run_len P hi (drop i s)" "g' = g"
    by (auto simp: countdown_iff)
  from slice_run [OF k(3)] have sl: "list_all P (slice s i (i + k))" "length (slice s i (i + k)) = k"
    by simp_all
  have "k \<le> length (drop i s)"
    using k(3) run_len_le [of P hi "drop i s"] length_takeWhile_le [of P "drop i s"] by linarith
  then have "e \<le> length s" using k(1) Rep.prems(1) by simp
  moreover have "case hi of None \<Rightarrow> True | Some h \<Rightarrow> k \<le> h"
    using k(3) run_len_hi by (auto split: option.splits intro: order_trans)
  ultimately show ?case using k sl by (simp split: option.splits)
next
  case (Grp r)
  from Grp.prems(2) obtain g1 where "(e, g1) \<in> set (ends r s (i, g))" by auto
  from Grp.IH [OF Grp.prems(1) this] show ?case by simp
qed

lemma match_at_sound:
  assumes "i \<le> length s" and "match_at r s i = Some m"
  shows "\<exists>e g. m = (i, e, g) \<and> i + min_len r \<le> e \<and> e \<le> length s \<and> lang r (slice s i e)"
proof -
  from assms(2) obtain e g rest where "ends r s (i, None) = (e, g) # rest" and m: "m = (i, e, g)"
    by (auto simp: match_at_def split: list.splits)
  then have "(e, g) \<in> set (ends r s (i, None))" by simp
  from ends_sound [OF assms(1) this] m show ?thesis by blast
qed

lemma finditer_from_sound:
  "m \<in> set (finditer_from r s i) \<Longrightarrow> \<exists>b. i \<le> b \<and> b \<le> length s \<and> match_at r s b = Some m"
proof (induction r s i rule: finditer_from.induct)
  case (1 r s i)
  show ?case
  proof (cases "length s < i")
    case True
    with 1(3) show ?thesis by simp
  next
    case False
    show ?thesis
    proof (cases "match_at r s i")
      case None
      with False 1(3) have "m \<in> set (finditer_from r s (Suc i))" by simp
      from 1(1) [OF False None this] show ?thesis by (auto intro: Suc_leD)
    next
      case (Some m')
      obtain b e g where m': "m' = (b, e, g)" by (cases m')
      from False Some m' 1(3) have "m = m' \<or> m \<in> set (finditer_from r s (if i < e then e else Suc i))"
        by simp
      then show ?thesis
      proof
        assume "m = m'"
        with Some False show ?thesis by auto
      next
        assume "m \<in> set (finditer_from r s (if i < e then e else Suc i))"
        from 1(2) [OF False Some m' [symmetric] refl this]
        obtain b' where "(if i < e then e else Suc i) \<le> b'" "b' \<le> length s" "match_at r s b' = Some m"
          by blast
        then show ?thesis by (intro exI [of _ b']) (auto split: if_splits)
      qed
    qed
  qed
qed

lemma finditer_sound:
  assumes "m \<in> set (finditer r s)"
  shows "\<exists>e g. m = (start m, e, g) \<and> match_at r s (start m) = Some m
           \<and> start m + min_len r \<le> e \<and> e \<le> length s \<and> lang r (slice s (start m) e)"
proof -
  from assms obtain b where b: "b \<le> length s" "match_at r s b = Some m"
    unfolding finditer_def by (blast dest: finditer_from_sound)
  from match_at_sound [OF b] obtain e g where "m = (b, e, g)" "b + min_len r \<le> e" "e \<le> length s"
    "lang r (slice s b e)" by blast
  with b show ?thesis by (auto simp: start_def)
qed

section \<open>CredentialHunter: categories and deduplication\<close>

lemma cred_body_eq: "cred_body data category findings m = Inr (dd_append findings category (cred_item data m))"
  unfolding cred_body_def cred_item_def
  by (subst utf8_decode_projr) simp_all

lemma cred_pattern_loop_eq:
  "cred_pattern_loop data category findings pattern
     = Inr (foldl (\<lambda>f it. dd_append f category it) findings (map (cred_item data) (finditer pattern data)))"
  unfolding cred_pattern_loop_def
  by (subst for_loop_total [where g = "\<lambda>f m. dd_append f category (cred_item data m)"])
     (simp_all add: cred_body_eq foldl_map)

lemma cred_category_loop_eq:
  "cred_category_loop data findings cp
     = Inr (foldl (\<lambda>f it. dd_append f (fst cp) it) findings (category_items data (snd cp)))"
  unfolding cred_category_loop_def category_items_def
  by (subst for_loop_total [where g = "\<lambda>f p. foldl (\<lambda>f it. dd_append f (fst cp) it) f (map (cred_item data) (finditer p data))"])
     (simp_all add: cred_pattern_loop_eq foldl_concat foldl_map)

lemma dd_append_fresh: "k \<notin> fst ` set d \<Longrightarrow> dd_append d k v = d @ [(k, [v])]"
  by (induction d) auto

lemma dd_append_last: "dd_append (d @ [(k, vs)]) k v = d @ [(k, vs @ [v])]" if "k \<notin> fst ` set d"
  using that by (induction d) auto

lemma dd_extend_last:
  "k \<notin> fst ` set d \<Longrightarrow>
   foldl (\<lambda>f it. dd_append f k it) (d @ [(k, vs)]) items = d @ [(k, vs @ items)]"
  by (induction items arbitrary: vs) (simp_all add: dd_append_last)

lemma dd_extend_fresh:
  "k \<notin> fst ` set d \<Longrightarrow>
   foldl (\<lambda>f it. dd_append f k it) d items = (if items = [] then d else d @ [(k, items)])"
  by (cases items) (simp_all add: dd_append_fresh dd_extend_last)

lemma categories_loop:
  "distinct (map fst cps) \<Longrightarrow> fst ` set cps \<inter> fst ` set d = {} \<Longrightarrow>
   foldl (\<lambda>f cp. foldl (\<lambda>f it. dd_append f (fst cp) it) f (G (snd cp))) d cps
     = d @ filter (\<lambda>ci. snd ci \<noteq> []) (map (\<lambda>cp. (fst cp, G (snd cp))) cps)"
proof (induction cps arbitrary: d)
  case Nil
  then show ?case by simp
next
  case (Cons cp cps)
  have fresh: "fst cp \<notin> fst ` set d" using Cons.prems(2) by auto
  show ?case
  proof (cases "G (snd cp) = []")
    case True
    with Cons show ?thesis by (simp add: dd_extend_fresh [OF fresh])
  next
    case False
    have "fst ` set cps \<inter> fst ` set (d @ [(fst cp, G (snd cp))]) = {}"
      using Cons.prems by auto
    with False Cons show ?thesis by (simp add: dd_extend_fresh [OF fresh])
  qed
qed

lemma categories_distinct: "distinct (map fst credential_patterns)"
  by (simp add: credential_patterns_def ascii_def ord_def)

lemma CredentialHunter_findings_eq:
  "CredentialHunter_findings data =
     Inr (map (\<lambda>ci. (fst ci, dedup {} [] (snd ci)))
            (filter (\<lambda>ci. snd ci \<noteq> [])
               (map (\<lambda>cp. (fst cp, category_items data (snd cp))) credential_patterns)))"
proof -
  have "for_loop (cred_category_loop data) credential_patterns []
          = Inr (foldl (\<lambda>f cp. foldl (\<lambda>f it. dd_append f (fst cp) it) f (category_items data (snd cp)))
                   [] credential_patterns)"
    by (rule for_loop_total) (simp add: cred_category_loop_eq)
  then show ?thesis
    using categories_loop [OF categories_distinct, of "[]" "category_items data"]
    by (simp add: CredentialHunter_findings_def case_prod_unfold)
qed

lemma find_skip:
  "\<forall>x \<in> set r. find (\<lambda>y. item_value y = item_value x) items = Some x \<Longrightarrow>
   \<forall>x \<in> set r. item_value it \<noteq> item_value x \<Longrightarrow>
   \<forall>x \<in> set r. find (\<lambda>y. item_value y = item_value x) (it # items) = Some x"
  by simp

lemma dedup_props:
  "\<exists>r. dedup seen unique items = unique @ r \<and> subseq r items
       \<and> distinct (map item_value r)
       \<and> set (map item_value r) = set (map item_value items) - seen
       \<and> (\<forall>it \<in> set r. find (\<lambda>x. item_value x = item_value it) items = Some it)"
proof (induction items arbitrary: seen unique)
  case Nil
  then show ?case by simp
next
  case (Cons it items)
  show ?case
  proof (cases "item_value it \<in> seen")
    case True
    from Cons [of seen unique] obtain r where r: "dedup seen unique items = unique @ r"
      "subseq r items" "distinct (map item_value r)"
      "set (map item_value r) = set (map item_value items) - seen"
      "\<forall>x \<in> set r. find (\<lambda>y. item_value y = item_value x) items = Some x"
      by (elim exE conjE)
    have "item_value ` set r \<subseteq> - seen"
      using r(4) by auto
    then have ne: "\<forall>x \<in> set r. item_value it \<noteq> item_value x"
      using True by blast
    have 1: "dedup seen unique (it # items) = unique @ r" using r(1) True by simp
    have 2: "subseq r (it # items)" using r(2) by (rule list_emb_Cons)
    have 4: "set (map item_value r) = set (map item_value (it # items)) - seen"
      using r(4) True by auto
    have 5: "\<forall>x \<in> set r. find (\<lambda>y. item_value y = item_value x) (it # items) = Some x"
      using r(5) ne by (rule find_skip)
    show ?thesis
      by (intro exI [of _ r] conjI 1 2 r(3) 4 5)
  next
    case False
    from Cons [of "insert (item_value it) seen" "unique @ [it]"] obtain r where
      r: "dedup (insert (item_value it) seen) (unique @ [it]) items = (unique @ [it]) @ r"
      "subseq r items" "distinct (map item_value r)"
      "set (map item_value r) = set (map item_value items) - insert (item_value it) seen"
      "\<forall>x \<in> set r. find (\<lambda>y. item_value y = item_value x) items = Some x"
      by (elim exE conjE)
    have "item_value ` set r \<subseteq> - insert (item_value it) seen"
      using r(4) by auto
    then have ne: "\<forall>x \<in> set r. item_value it \<noteq> item_value x"
      by blast
    have 1: "dedup seen unique (it # items) = unique @ (it # r)" using r(1) False by simp
    have 2: "subseq (it # r) (it # items)" using r(2) by simp
    have 3: "distinct (map item_value (it # r))" using r(3) ne by auto
    have 4: "set (map item_value (it # r)) = set (map item_value (it # items)) - seen"
      using r(4) False by auto
    have "\<forall>x \<in> set r. find (\<lambda>y. item_value y = item_value x) (it # items) = Some x"
      using r(5) ne by (rule find_skip)
    then have 5: "\<forall>x \<in> set (it # r). find (\<lambda>y. item_value y = item_value x) (it # items) = Some x"
      by simp
    show ?thesis
      by (intro exI [of _ "it # r"] conjI 1 2 3 4 5)
  qed
qed

lemma dedup_nonempty: "items \<noteq> [] \<Longrightarrow> dedup {} [] items \<noteq> []"
proof (cases items)
  case Nil
  then show "items \<noteq> [] \<Longrightarrow> ?thesis" by simp
next
  case (Cons it list)
  obtain r where "dedup {item_value it} [it] list = [it] @ r"
    using dedup_props [of "{item_value it}" "[it]" list] by blast
  with Cons show ?thesis by simp
qed

lemma map_of_categories:
  "distinct (map fst cps) \<Longrightarrow> (c, p) \<in> set cps \<Longrightarrow>
   map_of (map (\<lambda>ci. (fst ci, D (snd ci)))
             (filter (\<lambda>ci. snd ci \<noteq> []) (map (\<lambda>cp. (fst cp, G (snd cp))) cps))) c
     = (if G p = [] then None else Some (D (G p)))"
proof (induction cps)
  case Nil
  then show ?case by simp
next
  case (Cons cp cps)
  show ?case
  proof (cases "cp = (c, p)")
    case True
    have "c \<notin> fst ` set cps" using Cons.prems(1) True by auto
    then have "map_of (map (\<lambda>ci. (fst ci, D (snd ci)))
             (filter (\<lambda>ci. snd ci \<noteq> []) (map (\<lambda>cp. (fst cp, G (snd cp))) cps))) c = None"
      by (auto simp: map_of_eq_None_iff image_iff)
    with True show ?thesis by simp
  next
    case False
    with Cons.prems have in_rest: "(c, p) \<in> set cps" by auto
    then have "fst cp \<noteq> c" using Cons.prems(1) by (auto simp: image_iff)
    with Cons.IH in_rest Cons.prems(1) show ?thesis by simp
  qed
qed

lemma CredentialHunter_analyze_eq:
  "CredentialHunter_findings data = Inr fs \<Longrightarrow>
   CredentialHunter_analyze data
     = Inr (PDict (map (\<lambda>(category, items). (category, PList (map item_val items))) fs))"
  by (simp add: CredentialHunter_analyze_def)

lemma category_item_length: "it \<in> set (category_items data ps) \<Longrightarrow> length (item_value it) \<le> 200"
  by (auto simp: category_items_def cred_item_def item_value_def)


lemma subseq_member: "subseq xs ys \<Longrightarrow> x \<in> set xs \<Longrightarrow> x \<in> set ys"
  by (erule list_emb_set) auto

lemma dedup_spec:
  "distinct (map item_value (dedup {} [] raw))
   \<and> set (map item_value (dedup {} [] raw)) = set (map item_value raw)
   \<and> subseq (dedup {} [] raw) raw
   \<and> (\<forall>it \<in> set (dedup {} [] raw). find (\<lambda>x. item_value x = item_value it) raw = Some it)"
proof -
  obtain r where r: "dedup {} [] raw = [] @ r" "subseq r raw" "distinct (map item_value r)"
      "set (map item_value r) = set (map item_value raw) - {}"
      "\<forall>it \<in> set r. find (\<lambda>x. item_value x = item_value it) raw = Some it"
    using dedup_props [of "{}" "[]" raw] by (elim exE conjE)
  have eq: "dedup {} [] raw = r" using r(1) by simp
  show ?thesis unfolding eq using r(2,3,4,5) by simp
qed

lemma dedup_subseq: "subseq (dedup {} [] raw) raw"
  using dedup_spec [of raw] by (elim conjE)

lemma dedup_length:
  assumes "it \<in> set (dedup {} [] (category_items data ps))"
  shows "length (item_value it) \<le> 200"
proof -
  have "it \<in> set (category_items data ps)"
    using dedup_subseq assms by (rule subseq_member)
  then show ?thesis by (rule category_item_length)
qed


section \<open>What the analyzers return\<close>

lemma utf8_decode_ascii: "list_all is_ascii w \<Longrightarrow> utf8_decode h w = Inr (map ord w)"
  by (induction w) (simp_all add: utf8_step_def is_ascii_def Let_def)

lemma ascii_decode_ascii: "list_all is_ascii w \<Longrightarrow> ascii_decode h w = Inr (map ord w)"
  by (induction w) (simp_all add: is_ascii_def)

lemma lang_cls_all: "cls_all Q r \<Longrightarrow> lang r w \<Longrightarrow> list_all Q w"
proof (induction r arbitrary: w)
  case (Rep lo hi P)
  then show ?case by (auto simp: list_all_iff)
qed auto

lemma foldl_snoc: "foldl (\<lambda>st x. st @ [f x]) st xs = st @ map f xs"
  by (induction xs arbitrary: st) simp_all

lemma foldl_snoc_list: "foldl (\<lambda>st x. st @ f x) st xs = st @ concat (map f xs)"
  by (induction xs arbitrary: st) simp_all

lemma for_loop_map:
  "(\<And>st x. x \<in> set xs \<Longrightarrow> body st x = Inr (st @ [f x])) \<Longrightarrow> for_loop body xs [] = Inr (map f xs)"
  using for_loop_total [where g = "\<lambda>st x. st @ [f x]" and body = body and xs = xs and st = "[]"]
  by (simp add: foldl_snoc)

lemma for_loop_concat:
  "(\<And>st x. x \<in> set xs \<Longrightarrow> body st x = Inr (st @ f x)) \<Longrightarrow> for_loop body xs [] = Inr (concat (map f xs))"
  using for_loop_total [where g = "\<lambda>st x. st @ f x" and body = body and xs = xs and st = "[]"]
  by (simp add: foldl_snoc_list)

lemma match_text_ascii: "list_all is_ascii (group0 data m) \<Longrightarrow> ascii_decode h (group0 data m) = Inr (match_text data m)"
  by (simp add: match_text_def ascii_decode_ascii)

lemma match_text_utf8: "list_all is_ascii (group0 data m) \<Longrightarrow> utf8_decode h (group0 data m) = Inr (match_text data m)"
  by (simp add: match_text_def utf8_decode_ascii)

lemma finditer_begins:
  assumes "m \<in> set (finditer r data)" and "0 < min_len r"
  shows "begins_match r data m"
  using finditer_sound [OF assms(1)] assms(2) by (auto simp: begins_match_def)

lemma finditer_group0:
  assumes "m \<in> set (finditer r data)"
  shows "lang r (group0 data m)"
proof -
  from finditer_sound [OF assms] obtain e g where m: "m = (start m, e, g)"
    and l: "lang r (slice data (start m) e)" by blast
  have "group0 data m = slice data (start m) e"
    by (subst m) (simp add: group0_def)
  with l show ?thesis by simp
qed

subsection \<open>StringExtractor\<close>

lemma printable_ascii: "cls_all is_ascii string_pattern"
  by (simp add: string_pattern_def printable_def is_ascii_def)

lemma string_match_ascii: "m \<in> set (finditer string_pattern data) \<Longrightarrow> list_all is_ascii (group0 data m)"
  using lang_cls_all [OF printable_ascii] finditer_group0 by blast

lemma StringExtractor_analyze_eq:
  "StringExtractor_analyze data =
     Inr (PDict [(ascii ''total_strings'', PInt (int (length (finditer string_pattern data)))),
                 (ascii ''findings'',
                  PList (take 500 (map (\<lambda>m. string_finding (start m) (match_text data m))
                                     (finditer string_pattern data))))])"
proof -
  have "for_loop (string_body data) (finditer string_pattern data) []
          = Inr (map (\<lambda>m. string_finding (start m) (match_text data m))
                   (finditer string_pattern data))"
    by (rule for_loop_map) (simp add: string_body_def match_text_ascii string_match_ascii)
  then show ?thesis by (simp add: StringExtractor_analyze_def)
qed

subsection \<open>JSONExtractor\<close>

lemma json_body_eq: "json_body loads data findings m = Inr (findings @ json_finding loads data m)"
proof -
  obtain t where dec: "utf8_decode Ignore (group0 data m) = Inr t"
    using utf8_decode_lossy [of Ignore] by blast
  show ?thesis
    by (simp add: json_body_def json_try_def json_finding_def dec split: sum.splits)
qed

lemma JSONExtractor_analyze_eq:
  "JSONExtractor_analyze loads data =
     Inr (PDict [(ascii ''findings'',
                  PList (concat (map (json_finding loads data) (finditer json_pattern data))))])"
proof -
  have "for_loop (json_body loads data) (finditer json_pattern data) []
          = Inr (concat (map (json_finding loads data) (finditer json_pattern data)))"
    by (rule for_loop_concat) (simp add: json_body_eq)
  then show ?thesis by (simp add: JSONExtractor_analyze_def)
qed

subsection \<open>BSONFieldAnalyzer\<close>

lemma ends_Seq_iff:
  "x \<in> set (ends (Seq a b) s st) \<longleftrightarrow> (\<exists>y \<in> set (ends a s st). x \<in> set (ends b s y))"
  by simp

lemma ends_Grp_iff:
  "(e, g') \<in> set (ends (Grp r) s (i, g)) \<longleftrightarrow> g' = Some (i, e) \<and> (\<exists>g1. (e, g1) \<in> set (ends r s (i, g)))"
  by (force simp: image_iff)

lemma ends_Cls_iff:
  "(e, g') \<in> set (ends (Cls P) s (i, g)) \<longleftrightarrow> e = Suc i \<and> g' = g \<and> i < length s \<and> P (s ! i)"
  by auto

lemma ends_Grp_Cls:
  assumes "(e, g') \<in> set (ends (Seq (Grp r) (Cls P)) s (i, g))"
  shows "\<exists>j g1. e = Suc j \<and> g' = Some (i, j) \<and> j < length s \<and> P (s ! j)
            \<and> (j, g1) \<in> set (ends r s (i, g))"
proof -
  from assms obtain y where mid: "y \<in> set (ends (Grp r) s (i, g))"
    and fin: "(e, g') \<in> set (ends (Cls P) s y)"
    unfolding ends_Seq_iff by blast
  obtain j g2 where y: "y = (j, g2)" by (cases y)
  from mid obtain g1 where "g2 = Some (i, j)" and "(j, g1) \<in> set (ends r s (i, g))"
    unfolding y ends_Grp_iff by blast
  moreover from fin have "e = Suc j" "g' = g2" "j < length s" "P (s ! j)"
    unfolding y ends_Cls_iff by simp_all
  ultimately show ?thesis by blast
qed

lemma bson_match:
  assumes "m \<in> set (finditer bson_pattern data)"
  shows "\<exists>j. m = (start m, Suc j, Some (start m, j)) \<and> start m + 2 \<le> j \<and> j < length data
            \<and> data ! j = CHR 0x00
            \<and> lang (Seq (Cls field_first) (Rep 1 (Some 50) field_rest)) (slice data (start m) j)"
proof -
  from finditer_sound [OF assms] have at: "match_at bson_pattern data (start m) = Some m"
    and b: "start m \<le> length data"
    by auto
  from at have "\<exists>e g rest. ends bson_pattern data (start m, None) = (e, g) # rest
                  \<and> m = (start m, e, g)"
    by (auto simp: match_at_def split: list.splits)
  then obtain e g rest where "ends bson_pattern data (start m, None) = (e, g) # rest"
    and m: "m = (start m, e, g)"
    by blast
  then have "(e, g) \<in> set (ends (Seq (Grp (Seq (Cls field_first) (Rep 1 (Some 50) field_rest)))
                (Cls (\<lambda>x. x = CHR 0x00))) data (start m, None))"
    by (simp add: bson_pattern_def Chr_def)
  from ends_Grp_Cls [OF this] obtain j g1 where j: "e = Suc j" "g = Some (start m, j)"
    "j < length data" "data ! j = CHR 0x00"
    "(j, g1) \<in> set (ends (Seq (Cls field_first) (Rep 1 (Some 50) field_rest)) data (start m, None))"
    by blast
  from ends_sound [OF b j(5)] have "start m + 2 \<le> j"
    and "lang (Seq (Cls field_first) (Rep 1 (Some 50) field_rest)) (slice data (start m) j)"
    by simp_all
  with j show ?thesis by (subst m) simp
qed

lemma field_ascii: "cls_all is_ascii (Seq (Cls field_first) (Rep 1 (Some 50) field_rest))"
  by (auto simp: field_first_def field_rest_def is_ascii_def is_alnum_def is_alpha_def
      is_lower_def is_upper_def is_digit_def in_range_def ord_def)

lemma bson_body_eq:
  assumes "m \<in> set (finditer bson_pattern data)"
  shows "bson_body data field_names m = Inr (field_names @ [bson_field data m])"
proof -
  from bson_match [OF assms] obtain j where m: "m = (start m, Suc j, Some (start m, j))"
    and l: "lang (Seq (Cls field_first) (Rep 1 (Some 50) field_rest)) (slice data (start m) j)"
    by blast
  have g: "group1 data m = Some (slice data (start m) j)"
    by (subst m) (simp add: group1_def)
  have "list_all is_ascii (slice data (start m) j)"
    using field_ascii l by (rule lang_cls_all)
  then show ?thesis
    by (simp add: bson_body_def bson_field_def g utf8_decode_ascii)
qed

lemma BSONFieldAnalyzer_fields_eq:
  "BSONFieldAnalyzer_fields data = Inr (map (bson_field data) (finditer bson_pattern data))"
  unfolding BSONFieldAnalyzer_fields_def
  by (rule for_loop_map) (rule bson_body_eq)

subsection \<open>EmailExtractor\<close>

lemma email_ascii: "cls_all is_ascii email_pattern"
  by (auto simp: email_pattern_def Chr_def local_cls_def domain_cls_def is_ascii_def is_alnum_def
      is_alpha_def is_lower_def is_upper_def is_digit_def in_range_def ord_def)

lemma email_body_eq:
  assumes "m \<in> set (finditer email_pattern data)"
  shows "email_body data emails m = Inr (set_add emails (match_text data m))"
proof -
  have "list_all is_ascii (group0 data m)"
    using email_ascii finditer_group0 [OF assms] by (rule lang_cls_all)
  then show ?thesis by (simp add: email_body_def match_text_utf8)
qed

lemma email_loop_eq:
  "for_loop (email_body data) (finditer email_pattern data) []
     = Inr (foldl set_add [] (map (match_text data) (finditer email_pattern data)))"
proof -
  have "for_loop (email_body data) (finditer email_pattern data) []
     = Inr (foldl (\<lambda>emails m. set_add emails (match_text data m)) [] (finditer email_pattern data))"
    by (rule for_loop_total) (rule email_body_eq)
  then show ?thesis by (simp add: foldl_map)
qed

lemma EmailExtractor_analyze_eq:
  "EmailExtractor_analyze enum data =
     Inr (PDict [(ascii ''findings'',
                  PList (map PStr (sort (enum (foldl set_add []
                     (map (match_text data) (finditer email_pattern data)))))))])"
  by (simp add: EmailExtractor_analyze_def email_loop_eq)

subsection \<open>IPAddressExtractor\<close>

lemma is_digit_ord: "is_digit c \<longleftrightarrow> 48 \<le> ord c \<and> ord c \<le> 57"
  by (simp add: is_digit_def in_range_def ord_def)

lemma digits_map_ord: "d \<noteq> [] \<Longrightarrow> list_all is_digit d \<Longrightarrow> digits (map ord d)"
  by (simp add: digits_def list_all_iff is_digit_ord)

lemma lang_octet_dot:
  assumes "lang (octet_dot r) w"
  shows "\<exists>d v. w = d @ CHR ''.'' # v \<and> d \<noteq> [] \<and> list_all is_digit d \<and> lang r v"
proof -
  from assms obtain d v where "w = d @ CHR ''.'' # v" "Suc 0 \<le> length d" "list_all is_digit d" "lang r v"
    by (auto simp: octet_dot_def Chr_def)
  moreover from this have "d \<noteq> []" by auto
  ultimately show ?thesis by blast
qed

lemma lang_ip:
  assumes "lang ip_pattern w"
  shows "\<exists>d1 d2 d3 d4. w = d1 @ CHR ''.'' # d2 @ CHR ''.'' # d3 @ CHR ''.'' # d4
           \<and> digits (map ord d1) \<and> digits (map ord d2) \<and> digits (map ord d3) \<and> digits (map ord d4)"
proof -
  from assms have "lang (octet_dot (octet_dot (octet_dot (Seq (Rep 1 (Some 3) is_digit) Bnd)))) w"
    by (simp add: ip_pattern_def times_3)
  then obtain d1 v1 where 1: "w = d1 @ CHR ''.'' # v1" "d1 \<noteq> []" "list_all is_digit d1"
    and "lang (octet_dot (octet_dot (Seq (Rep 1 (Some 3) is_digit) Bnd))) v1"
    by (blast dest: lang_octet_dot)
  then obtain d2 v2 where 2: "v1 = d2 @ CHR ''.'' # v2" "d2 \<noteq> []" "list_all is_digit d2"
    and "lang (octet_dot (Seq (Rep 1 (Some 3) is_digit) Bnd)) v2"
    by (blast dest: lang_octet_dot)
  then obtain d3 v3 where 3: "v2 = d3 @ CHR ''.'' # v3" "d3 \<noteq> []" "list_all is_digit d3"
    and "lang (Seq (Rep 1 (Some 3) is_digit) Bnd) v3"
    by (blast dest: lang_octet_dot)
  then have 4: "v3 \<noteq> []" "list_all is_digit v3" by auto
  show ?thesis
    using 1 2 3 4 by (intro exI [of _ d1] exI [of _ d2] exI [of _ d3] exI [of _ v3])
      (simp add: digits_map_ord)
qed

lemma split_on_digits_dot:
  "list_all (\<lambda>c. 48 \<le> c \<and> c \<le> 57) p \<Longrightarrow> split_on 46 (p @ 46 # q) = p # split_on 46 q"
  by (induction p) auto

lemma split_on_digits:
  "list_all (\<lambda>c. 48 \<le> c \<and> c \<le> 57) p \<Longrightarrow> split_on 46 p = [p]"
  by (induction p) auto

lemma all_valid_digits: "list_all digits ps \<Longrightarrow> \<exists>b. all_valid ps = Inr b"
  by (induction ps) (auto simp: py_int_def digits_def)

lemma ip_match:
  assumes "m \<in> set (finditer ip_pattern data)"
  shows "utf8_decode Strict (group0 data m) = Inr (match_text data m)
       \<and> (\<exists>b. all_valid (split_on 46 (match_text data m)) = Inr b)"
proof -
  from lang_ip [OF finditer_group0 [OF assms]]
  obtain d1 d2 d3 d4 where w: "group0 data m = d1 @ CHR ''.'' # d2 @ CHR ''.'' # d3 @ CHR ''.'' # d4"
    and d: "digits (map ord d1)" "digits (map ord d2)" "digits (map ord d3)" "digits (map ord d4)"
    by blast
  have dot: "ord CHR ''.'' = 46" by (simp add: ord_def)
  have asc: "list_all is_ascii d" if "digits (map ord d)" for d
    using that by (auto simp: digits_def list_all_iff is_ascii_def)
  have "list_all is_ascii (group0 data m)"
    unfolding w using d by (simp add: asc is_ascii_def dot)
  then have dec: "utf8_decode Strict (group0 data m) = Inr (match_text data m)"
    by (rule match_text_utf8)
  have "split_on 46 (match_text data m) = [map ord d1, map ord d2, map ord d3, map ord d4]"
    unfolding match_text_def w using d
    by (simp add: dot digits_def split_on_digits_dot split_on_digits)
  moreover have "\<exists>b. all_valid [map ord d1, map ord d2, map ord d3, map ord d4] = Inr b"
    by (rule all_valid_digits) (simp add: d)
  ultimately have "\<exists>b. all_valid (split_on 46 (match_text data m)) = Inr b"
    by simp
  with dec show ?thesis by simp
qed

lemma ip_body_eq:
  assumes "m \<in> set (finditer ip_pattern data)"
  shows "ip_body data ips m
           = Inr (if ip_ok (match_text data m) then set_add ips (match_text data m) else ips)"
proof -
  from ip_match [OF assms] obtain b where
    "utf8_decode Strict (group0 data m) = Inr (match_text data m)"
    "all_valid (split_on 46 (match_text data m)) = Inr b"
    by blast
  then show ?thesis by (simp add: ip_body_def ip_ok_def)
qed

lemma ip_loop_eq:
  "for_loop (ip_body data) (finditer ip_pattern data) []
     = Inr (foldl (\<lambda>ips ip. if ip_ok ip then set_add ips ip else ips) []
             (map (match_text data) (finditer ip_pattern data)))"
proof -
  have "for_loop (ip_body data) (finditer ip_pattern data) []
     = Inr (foldl (\<lambda>ips m. if ip_ok (match_text data m) then set_add ips (match_text data m) else ips)
              [] (finditer ip_pattern data))"
    by (rule for_loop_total) (rule ip_body_eq)
  then show ?thesis by (simp add: foldl_map)
qed

lemma IPAddressExtractor_analyze_eq:
  "IPAddressExtractor_analyze enum data =
     Inr (PDict [(ascii ''findings'',
                  PList (map PStr (sort (enum (foldl (\<lambda>ips ip. if ip_ok ip then set_add ips ip else ips) []
                     (map (match_text data) (finditer ip_pattern data)))))))])"
  by (simp add: IPAddressExtractor_analyze_def ip_loop_eq)

subsection \<open>Completeness of the scan\<close>

lemma match_at_start: "match_at r s i = Some m \<Longrightarrow> start m = i"
  by (auto simp: match_at_def start_def split: list.splits)

lemma finditer_from_covers:
  "j \<le> i \<Longrightarrow> i \<le> length s \<Longrightarrow> match_at r s i \<noteq> None \<Longrightarrow>
   \<exists>m \<in> set (finditer_from r s j). start m \<le> i \<and> (i < end_of m \<or> start m = i)"
proof (induction r s j rule: finditer_from.induct)
  case (1 r s j)
  have in_range: "\<not> length s < j" using 1(3,4) by simp
  show ?case
  proof (cases "match_at r s j")
    case None
    with 1(5) have "j \<noteq> i" by auto
    with 1(3) have "Suc j \<le> i" by simp
    from 1(1) [OF in_range None this 1(4) 1(5)] in_range None show ?thesis
      by (subst finditer_from.simps) simp
  next
    case (Some m')
    obtain b e g where m': "m' = (b, e, g)" by (cases m')
    have b: "b = j" using match_at_start [OF Some] by (simp add: m' start_def)
    let ?next = "if j < e then e else Suc j"
    have unfold: "finditer_from r s j = (b, e, g) # finditer_from r s ?next"
      using in_range Some m' by (subst finditer_from.simps) simp
    show ?thesis
    proof (cases "i < ?next")
      case True
      then have "start (b, e, g) \<le> i \<and> (i < end_of (b, e, g) \<or> start (b, e, g) = i)"
        using 1(3) b by (auto simp: start_def end_of_def split: if_splits)
      then show ?thesis unfolding unfold by (intro bexI [of _ "(b, e, g)"]) simp_all
    next
      case False
      then have "?next \<le> i" by simp
      from 1(2) [OF in_range Some m' [symmetric] refl this 1(4) 1(5)]
      show ?thesis unfolding unfold by auto
    qed
  qed
qed

lemma finditer_covers:
  "i \<le> length s \<Longrightarrow> match_at r s i \<noteq> None \<Longrightarrow>
   \<exists>m \<in> set (finditer r s). start m \<le> i \<and> (i < end_of m \<or> start m = i)"
  unfolding finditer_def by (rule finditer_from_covers) simp_all

subsection \<open>The matches of a scan do not overlap\<close>

lemma finditer_from_disjoint:
  "sorted_wrt (\<lambda>m m'. end_of m \<le> start m' \<and> start m < start m') (finditer_from r s i)"
proof (induction r s i rule: finditer_from.induct)
  case (1 r s i)
  show ?case
  proof (cases "length s < i")
    case True
    then show ?thesis by simp
  next
    case False
    show ?thesis
    proof (cases "match_at r s i")
      case None
      with False 1(1) show ?thesis by simp
    next
      case (Some m')
      obtain b e g where m': "m' = (b, e, g)" by (cases m')
      have b: "b = i" using match_at_start [OF Some] by (simp add: m' start_def)
      let ?next = "if i < e then e else Suc i"
      have unfold: "finditer_from r s i = (b, e, g) # finditer_from r s ?next"
        using False Some m' by (subst finditer_from.simps) simp
      have tl: "sorted_wrt (\<lambda>m m'. end_of m \<le> start m' \<and> start m < start m') (finditer_from r s ?next)"
        using 1(2) [OF False Some m' [symmetric] refl] .
      have hd: "end_of (b, e, g) \<le> start m \<and> start (b, e, g) < start m"
        if "m \<in> set (finditer_from r s ?next)" for m
      proof -
        from finditer_from_sound [OF that] obtain b' where "?next \<le> b'" "match_at r s b' = Some m"
          by blast
        then have "?next \<le> start m" using match_at_start by blast
        then show ?thesis using b by (auto simp: start_def end_of_def split: if_splits)
      qed
      show ?thesis unfolding unfold using tl hd by simp
    qed
  qed
qed

lemma finditer_disjoint:
  "sorted_wrt (\<lambda>m m'. end_of m \<le> start m' \<and> start m < start m') (finditer r s)"
  unfolding finditer_def by (rule finditer_from_disjoint)

subsection \<open>Field tokens\<close>

lemma takeWhile_prefix:
  assumes "list_all P (take k xs)" and "k \<le> length xs"
  shows "k \<le> length (takeWhile P xs)"
proof -
  have "takeWhile P xs = takeWhile P (take k xs @ drop k xs)" by simp
  also have "\<dots> = take k xs @ takeWhile P (drop k xs)"
    using assms(1) by (subst takeWhile_append2) (auto simp: list_all_iff)
  finally show ?thesis using assms(2) by simp
qed

lemma lang_Seq: "lang (Seq a b) w \<longleftrightarrow> (\<exists>u v. w = u @ v \<and> lang a u \<and> lang b v)"
  by simp

lemma lang_field_token:
  "lang (Seq (Cls field_first) (Rep 1 (Some 50) field_rest)) w \<longleftrightarrow> field_token w"
proof
  assume "lang (Seq (Cls field_first) (Rep 1 (Some 50) field_rest)) w"
  then show "field_token w" by (auto simp: field_token_def)
next
  assume "field_token w"
  then obtain c cs where w: "w = [c] @ cs" and "field_first c" "1 \<le> length cs" "length cs \<le> 50"
    "list_all field_rest cs"
    by (auto simp: field_token_def split: list.splits)
  then have "lang (Cls field_first) [c]" and "lang (Rep 1 (Some 50) field_rest) cs"
    by simp_all
  with w show "lang (Seq (Cls field_first) (Rep 1 (Some 50) field_rest)) w"
    by (subst lang_Seq) blast
qed

lemma bson_token_matches:
  assumes tok: "field_token (slice data i j)" and j: "j < length data" and nul: "data ! j = CHR 0x00"
  shows "match_at bson_pattern data i \<noteq> None"
proof -
  from tok obtain c cs where w: "slice data i j = c # cs" and c: "field_first c"
    and cs: "1 \<le> length cs" "length cs \<le> 50" "list_all field_rest cs"
    by (auto simp: field_token_def split: list.splits)
  have len: "length (slice data i j) = j - i" using j by (simp add: slice_def)
  with w have ij: "i < j" "length cs = j - Suc i" by auto
  then have i: "i < length data" using j by simp
  have "slice data i j = slice data i (Suc i) @ slice data (Suc i) j"
    using ij by (intro slice_append) simp_all
  with w i have first: "data ! i = c" and rest: "slice data (Suc i) j = cs"
    by (simp_all add: slice_one)
  let ?k = "j - Suc i"
  have "list_all field_rest (take ?k (drop (Suc i) data))"
    using rest cs(3) by (simp add: slice_def)
  moreover have "?k \<le> length (drop (Suc i) data)" using j by simp
  ultimately have "?k \<le> length (takeWhile field_rest (drop (Suc i) data))"
    by (rule takeWhile_prefix)
  then have "?k \<le> run_len field_rest (Some 50) (drop (Suc i) data)"
    using cs(2) ij(2) by (simp add: run_len_def Let_def)
  then have "?k \<in> set (countdown 1 (run_len field_rest (Some 50) (drop (Suc i) data)))"
    using cs(1) ij(2) by (simp add: countdown_iff)
  then have "(Suc i + ?k, None) \<in> set (ends (Rep 1 (Some 50) field_rest) data (Suc i, None))"
    by (simp add: image_iff)
  moreover have "Suc i + ?k = j" using ij by simp
  ultimately have "(j, None) \<in> set (ends (Seq (Cls field_first) (Rep 1 (Some 50) field_rest)) data (i, None))"
    using i first c by simp
  then have "(j, Some (i, j)) \<in> set (ends (Grp (Seq (Cls field_first) (Rep 1 (Some 50) field_rest))) data (i, None))"
    unfolding ends_Grp_iff by blast
  moreover have "(Suc j, Some (i, j)) \<in> set (ends (Cls (\<lambda>x. x = CHR 0x00)) data (j, Some (i, j)))"
    using j nul by simp
  ultimately have "(Suc j, Some (i, j)) \<in> set (ends bson_pattern data (i, None))"
    unfolding bson_pattern_def Chr_def ends_Seq_iff by blast
  then have "ends bson_pattern data (i, None) \<noteq> []" by auto
  then show ?thesis by (auto simp: match_at_def split: list.splits)
qed

subsection \<open>Counter\<close>

lemma dd_incr_sum: "sum_list (map snd (dd_incr d k)) = Suc (sum_list (map snd d))"
  by (induction d) auto

lemma foldl_dd_incr_sum: "sum_list (map snd (foldl dd_incr d xs)) = sum_list (map snd d) + length xs"
  by (induction xs arbitrary: d) (simp_all add: dd_incr_sum)

lemma Counter_total: "sum_list (map snd (Counter xs)) = length xs"
  by (simp add: Counter_def foldl_dd_incr_sum)

lemma dd_incr_map_of:
  "map_of (dd_incr d k) x = (if x = k then Some (case map_of d k of None \<Rightarrow> 1 | Some c \<Rightarrow> Suc c) else map_of d x)"
  by (induction d) auto

lemma foldl_dd_incr_map_of:
  "map_of (foldl dd_incr d xs) x =
     (if x \<in> set xs then Some ((case map_of d x of None \<Rightarrow> 0 | Some c \<Rightarrow> c) + count_list xs x)
      else map_of d x)"
  by (induction xs arbitrary: d) (auto simp: dd_incr_map_of split: option.splits)

lemma Counter_count:
  "dict_get (Counter xs) x = (if x \<in> set xs then Some (count_list xs x) else None)"
  by (simp add: Counter_def dict_get_def foldl_dd_incr_map_of)

section \<open>Offsets of the findings\<close>

lemma field_key [simp]:
  "field k (PDict d) = map_of d (ascii k)"
  by (simp add: field_def dict_get_def)

lemma field_PStr [simp]: "field k (PStr s) = None"
  by (simp add: field_def)

lemma cred_min_len:
  "(category, pattern_list) \<in> set credential_patterns \<Longrightarrow> p \<in> set pattern_list \<Longrightarrow> 0 < min_len p"
  by (auto simp: credential_patterns_def kvI_def sepI_def nonspaceI_def ChrI_def)

lemma category_item_match:
  assumes "it \<in> set (category_items data pattern_list)"
  shows "\<exists>p \<in> set pattern_list. \<exists>m \<in> set (finditer p data). it = cred_item data m"
  using assms by (auto simp: category_items_def)

lemma list_all2_map_same:
  "(\<And>m. m \<in> set ms \<Longrightarrow> R (F m) m) \<Longrightarrow> list_all2 R (map F ms) ms"
  by (simp add: list_all2_map1 list_all2_same)

lemma list_all2_choice:
  "(\<And>x. x \<in> set xs \<Longrightarrow> \<exists>y. R x y) \<Longrightarrow> \<exists>ys. list_all2 R xs ys"
proof (induction xs)
  case Nil
  then show ?case by simp
next
  case (Cons x xs)
  from Cons.prems obtain y where y: "R x y" by auto
  from Cons obtain ys where "list_all2 R xs ys" by auto
  with y have "list_all2 R (x # xs) (y # ys)" by simp
  then show ?case by blast
qed

lemma list_all2_concat_filter:
  assumes "\<And>m. m \<in> set ms \<Longrightarrow> (Q m \<and> (\<exists>f. g m = [f] \<and> R f m)) \<or> (\<not> Q m \<and> g m = [])"
  shows "list_all2 R (concat (map g ms)) (filter Q ms)"
  using assms
proof (induction ms)
  case Nil
  then show ?case by simp
next
  case (Cons m ms)
  have tl: "list_all2 R (concat (map g ms)) (filter Q ms)"
    by (rule Cons.IH) (simp add: Cons.prems)
  from Cons.prems [of m] have "(Q m \<and> (\<exists>f. g m = [f] \<and> R f m)) \<or> (\<not> Q m \<and> g m = [])" by simp
  then show ?case using tl by auto
qed

lemma set_add_props:
  "distinct xs \<Longrightarrow> distinct (set_add xs x) \<and> set (set_add xs x) = insert x (set xs)"
  by (auto simp: set_add_def)

lemma foldl_set_add:
  "distinct acc \<Longrightarrow> distinct (foldl set_add acc xs) \<and> set (foldl set_add acc xs) = set acc \<union> set xs"
proof (induction xs arbitrary: acc)
  case Nil
  then show ?case by simp
next
  case (Cons x xs)
  from set_add_props [OF Cons.prems, of x] Cons.IH [of "set_add acc x"]
  show ?case by auto
qed

lemma foldl_set_add_if:
  "distinct acc \<Longrightarrow>
   distinct (foldl (\<lambda>ips ip. if Q ip then set_add ips ip else ips) acc xs)
   \<and> set (foldl (\<lambda>ips ip. if Q ip then set_add ips ip else ips) acc xs) = set acc \<union> {x \<in> set xs. Q x}"
proof (induction xs arbitrary: acc)
  case Nil
  then show ?case by simp
next
  case (Cons x xs)
  show ?case
  proof (cases "Q x")
    case True
    from set_add_props [OF Cons.prems, of x] Cons.IH [of "set_add acc x"] True
    show ?thesis by auto
  next
    case False
    with Cons.IH [OF Cons.prems] show ?thesis by auto
  qed
qed

lemma sort_enum_props:
  fixes l :: "str list"
  assumes "mset (enum l) = mset l" and "distinct l"
  shows "sorted (sort (enum l)) \<and> distinct (sort (enum l)) \<and> set (sort (enum l)) = set l"
proof -
  have "distinct (enum l)" using assms by (metis mset_eq_imp_distinct_iff)
  moreover have "set (enum l) = set l" using assms(1) by (metis set_mset_mset)
  ultimately show ?thesis by simp
qed

lemma string_own_match:
  "list_all2 (\<lambda>f m. begins_match string_pattern data m
                 \<and> (\<exists>s. ascii_decode Ignore (group0 data m) = Inr s
                      \<and> f = PDict [(ascii ''offset'', PInt (int (start m))),
                                   (ascii ''length'', PInt (int (length s))),
                                   (ascii ''content'', PStr s)]))
     (take 500 (map (\<lambda>m. string_finding (start m) (match_text data m))
                  (finditer string_pattern data)))
     (take 500 (finditer string_pattern data))"
  unfolding take_map
proof (rule list_all2_map_same)
  fix m assume "m \<in> set (take 500 (finditer string_pattern data))"
  then have m: "m \<in> set (finditer string_pattern data)" by (rule in_set_takeD)
  have "begins_match string_pattern data m"
    using m by (rule finditer_begins) (simp add: string_pattern_def)
  moreover have "ascii_decode Ignore (group0 data m) = Inr (match_text data m)"
    using string_match_ascii [OF m] by (rule match_text_ascii)
  ultimately show "begins_match string_pattern data m
     \<and> (\<exists>s. ascii_decode Ignore (group0 data m) = Inr s
          \<and> string_finding (start m) (match_text data m)
            = PDict [(ascii ''offset'', PInt (int (start m))),
                     (ascii ''length'', PInt (int (length s))),
                     (ascii ''content'', PStr s)])"
    by (simp add: string_finding_def)
qed

lemma json_own_match:
  "list_all2 (\<lambda>f m. begins_match json_pattern data m
                 \<and> (\<exists>t parsed. utf8_decode Ignore (group0 data m) = Inr t \<and> loads t = Inr parsed
                      \<and> f = PDict [(ascii ''offset'', PInt (int (start m))),
                                   (ascii ''data'', parsed)]))
     (concat (map (json_finding loads data) (finditer json_pattern data)))
     (filter (\<lambda>m. \<exists>t parsed. utf8_decode Ignore (group0 data m) = Inr t \<and> loads t = Inr parsed)
        (finditer json_pattern data))"
proof (rule list_all2_concat_filter)
  fix m assume m: "m \<in> set (finditer json_pattern data)"
  have b: "begins_match json_pattern data m"
    using m by (rule finditer_begins) (simp add: json_pattern_def Chr_def)
  obtain t where t: "utf8_decode Ignore (group0 data m) = Inr t"
    using utf8_decode_lossy [of Ignore] by blast
  show "((\<exists>t parsed. utf8_decode Ignore (group0 data m) = Inr t \<and> loads t = Inr parsed)
          \<and> (\<exists>f. json_finding loads data m = [f]
                \<and> begins_match json_pattern data m
                \<and> (\<exists>t parsed. utf8_decode Ignore (group0 data m) = Inr t \<and> loads t = Inr parsed
                      \<and> f = PDict [(ascii ''offset'', PInt (int (start m))),
                                   (ascii ''data'', parsed)])))
      \<or> (\<not> (\<exists>t parsed. utf8_decode Ignore (group0 data m) = Inr t \<and> loads t = Inr parsed)
          \<and> json_finding loads data m = [])"
  proof (cases "loads t")
    case (Inl e)
    then show ?thesis using t by (simp add: json_finding_def)
  next
    case (Inr parsed)
    then show ?thesis using t b by (simp add: json_finding_def)
  qed
qed

lemma bson_own_match:
  "list_all2 (\<lambda>f m. begins_match bson_pattern data m
                 \<and> (\<exists>bs s. group1 data m = Some bs \<and> utf8_decode Ignore bs = Inr s
                      \<and> f = PDict [(ascii ''offset'', PInt (int (start m))),
                                   (ascii ''name'', PStr s)]))
     (map field_val (take 1000 (map (bson_field data) (finditer bson_pattern data))))
     (take 1000 (finditer bson_pattern data))"
  unfolding take_map map_map
proof (rule list_all2_map_same)
  fix m assume "m \<in> set (take 1000 (finditer bson_pattern data))"
  then have m: "m \<in> set (finditer bson_pattern data)" by (rule in_set_takeD)
  have b: "begins_match bson_pattern data m"
    using m by (rule finditer_begins) (simp add: bson_pattern_def Chr_def)
  from bson_match [OF m] obtain j where mj: "m = (start m, Suc j, Some (start m, j))"
    and l: "lang (Seq (Cls field_first) (Rep 1 (Some 50) field_rest)) (slice data (start m) j)"
    by blast
  have g: "group1 data m = Some (slice data (start m) j)"
    by (subst mj) (simp add: group1_def)
  have "list_all is_ascii (slice data (start m) j)"
    using field_ascii l by (rule lang_cls_all)
  then have d: "utf8_decode Ignore (slice data (start m) j) = Inr (map ord (slice data (start m) j))"
    by (rule utf8_decode_ascii)
  have "(field_val \<circ> bson_field data) m
          = PDict [(ascii ''offset'', PInt (int (start m))),
                   (ascii ''name'', PStr (map ord (slice data (start m) j)))]"
    by (simp add: field_val_def bson_field_def g item_offset_def item_value_def)
  with b g d show "begins_match bson_pattern data m
     \<and> (\<exists>bs s. group1 data m = Some bs \<and> utf8_decode Ignore bs = Inr s
          \<and> (field_val \<circ> bson_field data) m
            = PDict [(ascii ''offset'', PInt (int (start m))), (ascii ''name'', PStr s)])"
    by blast
qed

lemma cred_own_match:
  assumes "(category, pattern_list) \<in> set credential_patterns"
  shows "\<exists>pms. list_all2 (\<lambda>f (p, m). p \<in> set pattern_list \<and> m \<in> set (finditer p data)
                   \<and> begins_match p data m
                   \<and> (\<exists>t. utf8_decode Replace (cred_group data m) = Inr t
                        \<and> f = PDict [(ascii ''offset'', PInt (int (start m))),
                                     (ascii ''value'', PStr (take 200 t))]))
           (map item_val (dedup {} [] (category_items data pattern_list))) pms"
proof (rule list_all2_choice)
  fix f assume "f \<in> set (map item_val (dedup {} [] (category_items data pattern_list)))"
  then obtain it where it: "it \<in> set (dedup {} [] (category_items data pattern_list))"
    and f: "f = item_val it" by auto
  have "it \<in> set (category_items data pattern_list)"
    using dedup_subseq it by (rule subseq_member)
  from category_item_match [OF this] obtain p m where p: "p \<in> set pattern_list"
    and m: "m \<in> set (finditer p data)" and itm: "it = cred_item data m"
    by blast
  have b: "begins_match p data m"
    using m cred_min_len [OF assms p] by (rule finditer_begins)
  obtain t where t: "utf8_decode Replace (cred_group data m) = Inr t"
    using utf8_decode_lossy [of Replace] by blast
  have "f = PDict [(ascii ''offset'', PInt (int (start m))), (ascii ''value'', PStr (take 200 t))]"
    by (simp add: f itm item_val_def cred_item_def t item_offset_def item_value_def)
  with p m b t show "\<exists>pm. (case pm of (p, m) \<Rightarrow> p \<in> set pattern_list \<and> m \<in> set (finditer p data)
                   \<and> begins_match p data m
                   \<and> (\<exists>t. utf8_decode Replace (cred_group data m) = Inr t
                        \<and> f = PDict [(ascii ''offset'', PInt (int (start m))),
                                     (ascii ''value'', PStr (take 200 t))]))"
    by (intro exI [of _ "(p, m)"]) simp
qed



text \<open>
  C10.  The Credential Hunter returns on every buffer, and every category that is a key
  of the mapping it returns has a list of findings that is not empty: a category without
  a match is no key of the result.
\<close>

theorem C10_categories_never_empty:
  "\<exists>fs. CredentialHunter_findings data = Inr fs
      \<and> CredentialHunter_analyze data
          = Inr (PDict (map (\<lambda>(category, items). (category, PList (map item_val items))) fs))
      \<and> (\<forall>(category, items) \<in> set fs. items \<noteq> [])"
proof -
  let ?fs = "map (\<lambda>ci. (fst ci, dedup {} [] (snd ci)))
            (filter (\<lambda>ci. snd ci \<noteq> [])
               (map (\<lambda>cp. (fst cp, category_items data (snd cp))) credential_patterns))"
  have fs: "CredentialHunter_findings data = Inr ?fs" by (rule CredentialHunter_findings_eq)
  have "\<forall>(category, items) \<in> set ?fs. items \<noteq> []"
    by (auto simp: dedup_nonempty)
  with fs CredentialHunter_analyze_eq [OF fs] show ?thesis by blast
qed

theorem C10_categories_never_empty_witness:
  "(\<exists>fs. CredentialHunter_findings ''pwd=abcd'' = Inr fs
      \<and> CredentialHunter_analyze ''pwd=abcd''
          = Inr (PDict (map (\<lambda>(category, items). (category, PList (map item_val items))) fs))
      \<and> (\<forall>(category, items) \<in> set fs. items \<noteq> []))
   \<and> CredentialHunter_analyze ''pwd=abcd''
         = Inr (PDict [(ascii ''passwords'', PList [item_val (0, ascii ''abcd'')])])"
proof -
  have "CredentialHunter_analyze ''pwd=abcd''
         = Inr (PDict [(ascii ''passwords'', PList [item_val (0, ascii ''abcd'')])])"
    by (simp add: cred_eval class_eval regex_eval python_eval)
  with C10_categories_never_empty [of "''pwd=abcd''"] show ?thesis
    by (rule conjI)
qed

text \<open>
  C6 (as amended).  For every buffer and every category of the Credential Hunter: the run
  returns; when no pattern of the category matches, the category is no key of the
  result; otherwise the stored items of the category carry pairwise distinct values,
  where the value of a match is its captured bytes decoded with replacement of invalid
  sequences and cut to 200 characters; every such value of a match of the category is
  the value of a stored item, the stored items are in the order of the matches, each
  stored item is the first match with its value, and no value is longer than 200
  characters.  On the buffer equal to \<^verbatim>\<open>b"password: secret123 password: secret123"\<close>
  the result is the single entry \<^verbatim>\<open>passwords\<close> with the single item of value
  \<^verbatim>\<open>secret123\<close> (at offset 0).
\<close>

theorem C6_values_deduplicated:
  assumes "(category, pattern_list) \<in> set credential_patterns"
  shows "\<exists>fs. CredentialHunter_findings data = Inr fs
      \<and> CredentialHunter_analyze data
          = Inr (PDict (map (\<lambda>(category, items). (category, PList (map item_val items))) fs))
      \<and> (case dict_get fs category of
            None \<Rightarrow> category_items data pattern_list = []
          | Some items \<Rightarrow>
              distinct (map item_value items)
              \<and> set (map item_value items) = set (map item_value (category_items data pattern_list))
              \<and> subseq items (category_items data pattern_list)
              \<and> (\<forall>it \<in> set items.
                    find (\<lambda>x. item_value x = item_value it) (category_items data pattern_list) = Some it
                    \<and> length (item_value it) \<le> 200))
      \<and> CredentialHunter_analyze ''password: secret123 password: secret123''
          = Inr (PDict [(ascii ''passwords'', PList [item_val (0, ascii ''secret123'')])])"
proof -
  let ?raw = "category_items data pattern_list"
  let ?fs = "map (\<lambda>ci. (fst ci, dedup {} [] (snd ci)))
            (filter (\<lambda>ci. snd ci \<noteq> [])
               (map (\<lambda>cp. (fst cp, category_items data (snd cp))) credential_patterns))"
  have fs: "CredentialHunter_findings data = Inr ?fs" by (rule CredentialHunter_findings_eq)
  have get: "dict_get ?fs category = (if ?raw = [] then None else Some (dedup {} [] ?raw))"
    unfolding dict_get_def
    by (rule map_of_categories [where D = "dedup {} []" and G = "category_items data",
          OF categories_distinct assms])
  have len: "\<forall>it \<in> set (dedup {} [] ?raw). length (item_value it) \<le> 200"
    using dedup_length by (intro ballI)
  have "case dict_get ?fs category of
            None \<Rightarrow> ?raw = []
          | Some items \<Rightarrow>
              distinct (map item_value items)
              \<and> set (map item_value items) = set (map item_value ?raw)
              \<and> subseq items ?raw
              \<and> (\<forall>it \<in> set items.
                    find (\<lambda>x. item_value x = item_value it) ?raw = Some it
                    \<and> length (item_value it) \<le> 200)"
  proof (cases "?raw = []")
    case True
    then show ?thesis unfolding get by simp
  next
    case False
    then show ?thesis unfolding get using dedup_spec [of ?raw] len by simp
  qed
  moreover have "CredentialHunter_analyze ''password: secret123 password: secret123''
          = Inr (PDict [(ascii ''passwords'', PList [item_val (0, ascii ''secret123'')])])"
    by (simp add: cred_eval class_eval regex_eval python_eval)
  ultimately show ?thesis
    by (intro exI [of _ ?fs] conjI fs CredentialHunter_analyze_eq [OF fs])
qed

theorem C6_values_deduplicated_witness:
  "(\<exists>fs. CredentialHunter_findings ''pwd=abcd pwd=abcd'' = Inr fs
      \<and> CredentialHunter_analyze ''pwd=abcd pwd=abcd''
          = Inr (PDict (map (\<lambda>(category, items). (category, PList (map item_val items))) fs))
      \<and> (case dict_get fs (ascii ''passwords'') of
            None \<Rightarrow> False
          | Some items \<Rightarrow>
              items = [(0, ascii ''abcd'')]
              \<and> distinct (map item_value items)
              \<and> set (map item_value items) = set (map item_value [(0, ascii ''abcd''), (9, ascii ''abcd'')])
              \<and> subseq items [(0, ascii ''abcd''), (9, ascii ''abcd'')]))
   \<and> category_items ''pwd=abcd pwd=abcd''
        [kvI ''password'' (nonspaceI 4), kvI ''passwd'' (nonspaceI 4), kvI ''pwd'' (nonspaceI 4)]
       = [(0, ascii ''abcd''), (9, ascii ''abcd'')]
   \<and> CredentialHunter_findings ''pwd=abcd pwd=abcd''
         = Inr [(ascii ''passwords'', [(0, ascii ''abcd'')])]"
proof -
  let ?pl = "[kvI ''password'' (nonspaceI 4), kvI ''passwd'' (nonspaceI 4), kvI ''pwd'' (nonspaceI 4)]"
  have mem: "(ascii ''passwords'', ?pl) \<in> set credential_patterns"
    by (simp add: credential_patterns_def)
  have raw: "category_items ''pwd=abcd pwd=abcd'' ?pl = [(0, ascii ''abcd''), (9, ascii ''abcd'')]"
    by (simp add: category_items_def cred_item_def cred_eval class_eval regex_eval python_eval)
  have res: "CredentialHunter_findings ''pwd=abcd pwd=abcd''
         = Inr [(ascii ''passwords'', [(0, ascii ''abcd'')])]"
    by (simp add: cred_eval class_eval regex_eval python_eval)
  from C6_values_deduplicated [OF mem, of "''pwd=abcd pwd=abcd''"]
  obtain fs where fs: "CredentialHunter_findings ''pwd=abcd pwd=abcd'' = Inr fs"
    and an: "CredentialHunter_analyze ''pwd=abcd pwd=abcd''
          = Inr (PDict (map (\<lambda>(category, items). (category, PList (map item_val items))) fs))"
    and c: "case dict_get fs (ascii ''passwords'') of
            None \<Rightarrow> category_items ''pwd=abcd pwd=abcd'' ?pl = []
          | Some items \<Rightarrow>
              distinct (map item_value items)
              \<and> set (map item_value items) = set (map item_value (category_items ''pwd=abcd pwd=abcd'' ?pl))
              \<and> subseq items (category_items ''pwd=abcd pwd=abcd'' ?pl)
              \<and> (\<forall>it \<in> set items.
                    find (\<lambda>x. item_value x = item_value it) (category_items ''pwd=abcd pwd=abcd'' ?pl) = Some it
                    \<and> length (item_value it) \<le> 200)"
    by blast
  from fs res have eq: "fs = [(ascii ''passwords'', [(0, ascii ''abcd'')])]" by simp
  have "case dict_get fs (ascii ''passwords'') of
            None \<Rightarrow> False
          | Some items \<Rightarrow>
              items = [(0, ascii ''abcd'')]
              \<and> distinct (map item_value items)
              \<and> set (map item_value items) = set (map item_value [(0, ascii ''abcd''), (9, ascii ''abcd'')])
              \<and> subseq items [(0, ascii ''abcd''), (9, ascii ''abcd'')]"
    using c unfolding raw eq by (simp add: dict_get_def)
  with fs an have "\<exists>fs. CredentialHunter_findings ''pwd=abcd pwd=abcd'' = Inr fs
      \<and> CredentialHunter_analyze ''pwd=abcd pwd=abcd''
          = Inr (PDict (map (\<lambda>(category, items). (category, PList (map item_val items))) fs))
      \<and> (case dict_get fs (ascii ''passwords'') of
            None \<Rightarrow> False
          | Some items \<Rightarrow>
              items = [(0, ascii ''abcd'')]
              \<and> distinct (map item_value items)
              \<and> set (map item_value items) = set (map item_value [(0, ascii ''abcd''), (9, ascii ''abcd'')])
              \<and> subseq items [(0, ascii ''abcd''), (9, ascii ''abcd'')])"
    by blast
  with raw res show ?thesis by blast
qed

text \<open>
  C6, counterexample.  In \<^verbatim>\<open>b"pwd=abc\xff pwd=abc\xfe"\<close> the two captured values
  \<^verbatim>\<open>b"abc\xff"\<close> and \<^verbatim>\<open>b"abc\xfe"\<close> are distinct, yet one item is stored: both decode,
  with replacement, to \<^verbatim>\<open>abc\<close> followed by U+FFFD, and the values are compared after
  the decode and the cut.  And the buffer \<^verbatim>\<open>b"password: secret123 password: secret123 pwd=other"\<close>
  contains the sample, yet the result has two \<^verbatim>\<open>passwords\<close> entries.
\<close>

theorem C6_distinct_captures_stored_once:
  "map (cred_group [CHR ''p'', CHR ''w'', CHR ''d'', CHR ''='', CHR ''a'', CHR ''b'', CHR ''c'', CHR 0xFF,
                    CHR '' '', CHR ''p'', CHR ''w'', CHR ''d'', CHR ''='', CHR ''a'', CHR ''b'', CHR ''c'', CHR 0xFE])
       (finditer (kvI ''pwd'' (nonspaceI 4))
          [CHR ''p'', CHR ''w'', CHR ''d'', CHR ''='', CHR ''a'', CHR ''b'', CHR ''c'', CHR 0xFF,
           CHR '' '', CHR ''p'', CHR ''w'', CHR ''d'', CHR ''='', CHR ''a'', CHR ''b'', CHR ''c'', CHR 0xFE])
     = [[CHR ''a'', CHR ''b'', CHR ''c'', CHR 0xFF], [CHR ''a'', CHR ''b'', CHR ''c'', CHR 0xFE]]
   \<and> CredentialHunter_analyze
         [CHR ''p'', CHR ''w'', CHR ''d'', CHR ''='', CHR ''a'', CHR ''b'', CHR ''c'', CHR 0xFF,
          CHR '' '', CHR ''p'', CHR ''w'', CHR ''d'', CHR ''='', CHR ''a'', CHR ''b'', CHR ''c'', CHR 0xFE]
       = Inr (PDict [(ascii ''passwords'',
                PList [PDict [(ascii ''offset'', PInt 0),
                              (ascii ''value'', PStr [97, 98, 99, 0xFFFD])]])])
   \<and> CredentialHunter_analyze ''password: secret123 password: secret123 pwd=other''
       = Inr (PDict [(ascii ''passwords'',
                PList [PDict [(ascii ''offset'', PInt 0), (ascii ''value'', PStr (ascii ''secret123''))],
                       PDict [(ascii ''offset'', PInt 40), (ascii ''value'', PStr (ascii ''other''))]])])"
  by (simp add: cred_eval class_eval regex_eval python_eval item_val_def item_offset_def)

section \<open>BSONFieldAnalyzer: the tokens counted\<close>

lemma BSONFieldAnalyzer_analyze_eq:
  "BSONFieldAnalyzer_analyze data =
     Inr (PDict
       [(ascii ''total_fields'', PInt (int (length (finditer bson_pattern data)))),
        (ascii ''unique_fields'',
           PInt (int (length (Counter (map (\<lambda>m. item_value (bson_field data m))
                                         (finditer bson_pattern data)))))),
        (ascii ''top_fields'',
           PList (map count_val (most_common 50
                    (Counter (map (\<lambda>m. item_value (bson_field data m))
                                (finditer bson_pattern data)))))),
        (ascii ''all_fields'',
           PList (map field_val (take 1000 (map (bson_field data) (finditer bson_pattern data)))))])"
  by (simp add: BSONFieldAnalyzer_analyze_def BSONFieldAnalyzer_fields_eq Let_def comp_def)

lemma bson_match_token:
  assumes "m \<in> set (finditer bson_pattern data)"
  shows "\<exists>j. m = (start m, Suc j, Some (start m, j)) \<and> j < length data \<and> data ! j = CHR 0x00
            \<and> field_token (slice data (start m) j)
            \<and> bson_field data m = (start m, map ord (slice data (start m) j))"
proof -
  from bson_match [OF assms] obtain j where m: "m = (start m, Suc j, Some (start m, j))"
    and j: "j < length data" "data ! j = CHR 0x00"
    and l: "lang (Seq (Cls field_first) (Rep 1 (Some 50) field_rest)) (slice data (start m) j)"
    by blast
  have g: "group1 data m = Some (slice data (start m) j)"
    by (subst m) (simp add: group1_def)
  have "bson_field data m = (start m, map ord (slice data (start m) j))"
    by (simp add: bson_field_def g)
  with m j l show ?thesis unfolding lang_field_token by blast
qed

lemma bson_token_covered:
  assumes "j < length data" and "data ! j = CHR 0x00" and "field_token (slice data i j)"
  shows "\<exists>m \<in> set (finditer bson_pattern data). start m \<le> i \<and> i < end_of m"
proof -
  have "slice data i j \<noteq> []" using assms(3) by (auto simp: field_token_def)
  then have "i < j" by (simp add: slice_def)
  then have i: "i \<le> length data" using assms(1) by simp
  from finditer_covers [OF i bson_token_matches [OF assms(3) assms(1) assms(2)]]
  obtain m where m: "m \<in> set (finditer bson_pattern data)" "start m \<le> i"
    "i < end_of m \<or> start m = i" by blast
  from bson_match [OF m(1)] obtain j' where "m = (start m, Suc j', Some (start m, j'))"
    "start m + 2 \<le> j'" by blast
  then have "end_of m = Suc j'" "start m < Suc j'"
    by (simp_all add: end_of_def) (metis fst_conv snd_conv)
  with m show ?thesis by auto
qed

text \<open>
  C5 (as amended).  For every buffer the Schema-Field-Name Analyzer returns the total
  count, the unique count, the frequency table and the occurrences of the matches of its
  left-to-right scan.  Every match is a token that begins with a letter or an underscore,
  goes on with 1 to 50 letters, digits, underscores or dots, and is immediately followed
  by a null byte; it contributes one occurrence with its offset and its name.  Every
  position where such a token stands before a null byte lies within a counted match.
  The matches are counted in the order of the scan and do not overlap: each one ends
  at or before the position where the next one begins.
  The counts of the frequency table add up to the total count, and the count of a name
  is the number of its occurrences.
\<close>

theorem C5_field_tokens_counted:
  "BSONFieldAnalyzer_analyze data =
     Inr (PDict
       [(ascii ''total_fields'', PInt (int (length (finditer bson_pattern data)))),
        (ascii ''unique_fields'',
           PInt (int (length (Counter (map (\<lambda>m. item_value (bson_field data m))
                                         (finditer bson_pattern data)))))),
        (ascii ''top_fields'',
           PList (map count_val (most_common 50
                    (Counter (map (\<lambda>m. item_value (bson_field data m))
                                (finditer bson_pattern data)))))),
        (ascii ''all_fields'',
           PList (map field_val (take 1000 (map (bson_field data) (finditer bson_pattern data)))))])
   \<and> (\<forall>m \<in> set (finditer bson_pattern data).
         \<exists>j. m = (start m, Suc j, Some (start m, j)) \<and> j < length data \<and> data ! j = CHR 0x00
            \<and> field_token (slice data (start m) j)
            \<and> bson_field data m = (start m, map ord (slice data (start m) j)))
   \<and> (\<forall>i j. j < length data \<and> data ! j = CHR 0x00 \<and> field_token (slice data i j)
         \<longrightarrow> (\<exists>m \<in> set (finditer bson_pattern data). start m \<le> i \<and> i < end_of m))
   \<and> sorted_wrt (\<lambda>m m'. end_of m \<le> start m' \<and> start m < start m') (finditer bson_pattern data)
   \<and> sum_list (map snd (Counter (map (\<lambda>m. item_value (bson_field data m))
                                    (finditer bson_pattern data))))
       = length (finditer bson_pattern data)
   \<and> (\<forall>n. dict_get (Counter (map (\<lambda>m. item_value (bson_field data m))
                                 (finditer bson_pattern data))) n
         = (if n \<in> set (map (\<lambda>m. item_value (bson_field data m)) (finditer bson_pattern data))
            then Some (count_list (map (\<lambda>m. item_value (bson_field data m))
                                     (finditer bson_pattern data)) n)
            else None))"
proof (intro conjI)
  show "\<forall>m \<in> set (finditer bson_pattern data).
         \<exists>j. m = (start m, Suc j, Some (start m, j)) \<and> j < length data \<and> data ! j = CHR 0x00
            \<and> field_token (slice data (start m) j)
            \<and> bson_field data m = (start m, map ord (slice data (start m) j))"
    using bson_match_token by blast
  show "\<forall>i j. j < length data \<and> data ! j = CHR 0x00 \<and> field_token (slice data i j)
         \<longrightarrow> (\<exists>m \<in> set (finditer bson_pattern data). start m \<le> i \<and> i < end_of m)"
    using bson_token_covered by blast
  show "sorted_wrt (\<lambda>m m'. end_of m \<le> start m' \<and> start m < start m') (finditer bson_pattern data)"
    by (rule finditer_disjoint)
qed (simp_all add: BSONFieldAnalyzer_analyze_eq Counter_total Counter_count del: set_map)

theorem C5_field_tokens_counted_witness:
  "BSONFieldAnalyzer_analyze
       [CHR ''a'', CHR ''b'', CHR ''c'', CHR 0x00, CHR ''a'', CHR ''b'', CHR 0x00] =
     Inr (PDict
       [(ascii ''total_fields'', PInt 2),
        (ascii ''unique_fields'', PInt 2),
        (ascii ''top_fields'',
           PList [PTuple [PStr (ascii ''abc''), PInt 1], PTuple [PStr (ascii ''ab''), PInt 1]]),
        (ascii ''all_fields'',
           PList [PDict [(ascii ''offset'', PInt 0), (ascii ''name'', PStr (ascii ''abc''))],
                  PDict [(ascii ''offset'', PInt 4), (ascii ''name'', PStr (ascii ''ab''))]])])
   \<and> finditer bson_pattern
       [CHR ''a'', CHR ''b'', CHR ''c'', CHR 0x00, CHR ''a'', CHR ''b'', CHR 0x00]
       = [(0, 4, Some (0, 3)), (4, 7, Some (4, 6))]"
proof -
  have ms: "finditer bson_pattern
              [CHR ''a'', CHR ''b'', CHR ''c'', CHR 0x00, CHR ''a'', CHR ''b'', CHR 0x00]
          = [(0, 4, Some (0, 3)), (4, 7, Some (4, 6))]"
    by (simp add: bson_pattern_def regex_eval class_eval)
  show ?thesis
    using C5_field_tokens_counted
      [of "[CHR ''a'', CHR ''b'', CHR ''c'', CHR 0x00, CHR ''a'', CHR ''b'', CHR 0x00]",
       THEN conjunct1]
    unfolding ms
    by (simp add: bson_field_def bson_eval regex_eval ord_def ascii_def)
qed

text \<open>
  C5, counterexample: \<^verbatim>\<open>1a\<close> consists of letters and digits and has two characters, and
  in \<^verbatim>\<open>b"1a\x00"\<close> it is immediately followed by a null byte, yet the analyzer counts no
  field: a token must begin with a letter or an underscore.
\<close>

theorem C5_digit_first_token_not_counted:
  "spec_token ''1a''
   \<and> BSONFieldAnalyzer_analyze [CHR ''1'', CHR ''a'', CHR 0x00] =
       Inr (PDict
         [(ascii ''total_fields'', PInt 0),
          (ascii ''unique_fields'', PInt 0),
          (ascii ''top_fields'', PList []),
          (ascii ''all_fields'', PList [])])"
  by (simp add: spec_token_def bson_eval regex_eval class_eval python_eval)

section \<open>Two runs agree\<close>

lemma sort_enum:
  fixes l :: "str list"
  assumes "mset (enum1 l) = mset l" and "mset (enum2 l) = mset l"
  shows "sort (enum1 l) = sort (enum2 l)"
proof (rule properties_for_sort)
  show "mset (sort (enum2 l)) = mset (enum1 l)" using assms by simp
  show "sorted (sort (enum2 l))" by simp
qed

lemma email_enum:
  assumes "\<And>l. mset (enum1 l) = mset l" and "\<And>l. mset (enum2 l) = mset l"
  shows "EmailExtractor_analyze enum1 data = EmailExtractor_analyze enum2 data"
  unfolding EmailExtractor_analyze_eq using sort_enum [of enum1 _ enum2] assms by simp

lemma ip_enum:
  assumes "\<And>l. mset (enum1 l) = mset l" and "\<And>l. mset (enum2 l) = mset l"
  shows "IPAddressExtractor_analyze enum1 data = IPAddressExtractor_analyze enum2 data"
  unfolding IPAddressExtractor_analyze_eq using sort_enum [of enum1 _ enum2] assms by simp

lemma run_main_results:
  "results (run_main loads enum data)
     = map (\<lambda>a. (get_name a, slot data a)) (main_analyzers loads enum)"
  unfolding run_main_def using main_names_distinct by (rule results_analyze_all)

lemma dict_set_keys_same: "k \<in> fst ` set d \<Longrightarrow> map fst (dict_set d k v) = map fst d"
  by (induction d) force+

lemma keys_order_foldl_run:
  "get_name ` set as \<subseteq> fst ` set res \<Longrightarrow> map fst (foldl (run_analyzer data) res as) = map fst res"
proof (induction as arbitrary: res)
  case Nil
  then show ?case by simp
next
  case (Cons a as)
  let ?res = "dict_set res (get_name a) (slot data a)"
  from Cons.prems have a: "get_name a \<in> fst ` set res" by simp
  have keys: "map fst ?res = map fst res" using a by (rule dict_set_keys_same)
  then have "fst ` set ?res = fst ` set res" by (metis list.set_map)
  with Cons.prems have "get_name ` set as \<subseteq> fst ` set ?res" by simp
  from Cons.IH [OF this] keys show ?case by (simp add: run_analyzer_slot)
qed

lemma dict_eqI:
  "map fst d1 = map fst d2 \<Longrightarrow> distinct (map fst d1) \<Longrightarrow> map_of d1 = map_of d2 \<Longrightarrow> d1 = d2"
proof (induction d1 arbitrary: d2)
  case Nil
  then show ?case by simp
next
  case (Cons x d1)
  obtain k v where x: "x = (k, v)" by (cases x)
  from Cons.prems(1) obtain y d2' where d2: "d2 = y # d2'" by (cases d2) auto
  obtain k' v' where y: "y = (k', v')" by (cases y)
  from Cons.prems(1) have k: "k' = k" and keys: "map fst d1 = map fst d2'"
    by (simp_all add: x y d2)
  have "map_of (x # d1) k = map_of d2 k" by (rule fun_cong [OF Cons.prems(3)])
  then have v: "v' = v" by (simp add: x y d2 k)
  from Cons.prems(2) have nk: "k \<notin> fst ` set d1" and dist: "distinct (map fst d1)"
    by (simp_all add: x)
  have nk': "k \<notin> fst ` set d2'" using nk keys by (metis list.set_map)
  have "map_of d1 z = map_of d2' z" for z
  proof (cases "z = k")
    case True
    moreover have "map_of d1 k = None" "map_of d2' k = None"
      using nk nk' by (simp_all only: map_of_eq_None_iff not_False_eq_True)
    ultimately show ?thesis by simp
  next
    case False
    have "map_of (x # d1) z = map_of d2 z" by (rule fun_cong [OF Cons.prems(3)])
    with False show ?thesis by (simp add: x y d2 k)
  qed
  then have "map_of d1 = map_of d2'" by (rule ext)
  from Cons.IH [OF keys dist this] show ?case by (simp add: x y d2 k v)
qed

lemma second_run:
  "foldl (run_analyzer data) (foldl (run_analyzer data) [] as) as = foldl (run_analyzer data) [] as"
proof (rule dict_eqI)
  let ?r1 = "foldl (run_analyzer data) [] as"
  have keys1: "fst ` set ?r1 = get_name ` set as" by (simp add: keys_foldl_run)
  show keys: "map fst (foldl (run_analyzer data) ?r1 as) = map fst ?r1"
    by (rule keys_order_foldl_run) (simp add: keys1)
  show "distinct (map fst (foldl (run_analyzer data) ?r1 as))"
    unfolding keys by (rule distinct_foldl_run) simp
  show "map_of (foldl (run_analyzer data) ?r1 as) = map_of ?r1"
  proof (rule ext)
    fix k
    show "map_of (foldl (run_analyzer data) ?r1 as) k = map_of ?r1 k"
    proof (cases "k \<in> get_name ` set as")
      case False
      then show ?thesis by (rule map_of_foldl_run_other)
    next
      case True
      then have "\<exists>a \<in> set as. get_name a = k" by auto
      from split_list_last_prop [OF this]
      obtain pre a post where as: "as = pre @ a # post" and a: "get_name a = k"
        and post: "\<forall>b \<in> set post. get_name b \<noteq> k" by blast
      from post a have last: "get_name a \<notin> get_name ` set post" by auto
      have "map_of (foldl (run_analyzer data) ?r1 (pre @ a # post)) (get_name a) = Some (slot data a)"
        using last by (rule map_of_foldl_run_last)
      moreover have "map_of (foldl (run_analyzer data) [] (pre @ a # post)) (get_name a) = Some (slot data a)"
        using last by (rule map_of_foldl_run_last)
      ultimately show ?thesis unfolding as a by simp
    qed
  qed
qed

lemma results_second_run:
  "results (analyze_all (analyze_all (foldl add_analyzer HTMLReportGenerator_init as) data) data)
     = results (analyze_all (foldl add_analyzer HTMLReportGenerator_init as) data)"
  by (simp add: analyze_all_def registered registered_results HTMLReportGenerator_init_def second_run)

lemma ranking_unique:
  "(mset r = mset counts \<and> sorted_wrt (\<lambda>x y. snd y \<le> snd x) r
      \<and> (\<forall>c. filter (\<lambda>x. snd x = c) r = filter (\<lambda>x. snd x = c) counts))
   \<longleftrightarrow> r = sorted_by_count_desc counts"
proof
  assume r: "mset r = mset counts \<and> sorted_wrt (\<lambda>x y. snd y \<le> snd x) r
      \<and> (\<forall>c. filter (\<lambda>x. snd x = c) r = filter (\<lambda>x. snd x = c) counts)"
  have "sort_key (\<lambda>x. - int (snd x)) counts = r"
  proof (rule properties_for_sort_key)
    show "mset r = mset counts" using r by simp
    show "sorted (map (\<lambda>x. - int (snd x)) r)" using r by (simp add: sorted_map)
    fix k
    have f: "filter (\<lambda>x. snd x = snd k) r = filter (\<lambda>x. snd x = snd k) counts" using r by blast
    have e: "filter (\<lambda>x. - int (snd k) = - int (snd x)) l = filter (\<lambda>x. snd x = snd k) l"
      for l :: "('a \<times> nat) list"
      by (rule filter_cong) auto
    show "filter (\<lambda>x. - int (snd k) = - int (snd x)) r
        = filter (\<lambda>x. - int (snd k) = - int (snd x)) counts"
      by (simp only: e f)
  qed
  then show "r = sorted_by_count_desc counts" by (simp add: sorted_by_count_desc_def)
next
  assume r: "r = sorted_by_count_desc counts"
  have "sorted (map (\<lambda>x. - int (snd x)) (sort_key (\<lambda>x. - int (snd x)) counts))" by simp
  then have "sorted_wrt (\<lambda>x y. snd y \<le> snd x) (sort_key (\<lambda>x. - int (snd x)) counts)"
    by (simp add: sorted_map)
  moreover have "filter (\<lambda>x. snd x = c) (sort_key (\<lambda>x. - int (snd x)) counts)
      = filter (\<lambda>x. snd x = c) counts" for c
    using sort_key_stable [of "\<lambda>x. - int (snd x)" "- int c" counts] by simp
  ultimately show "mset r = mset counts \<and> sorted_wrt (\<lambda>x y. snd y \<le> snd x) r
      \<and> (\<forall>c. filter (\<lambda>x. snd x = c) r = filter (\<lambda>x. snd x = c) counts)"
    unfolding r sorted_by_count_desc_def by simp
qed

lemma dd_incr_keys: "map fst (dd_incr d k) = set_add (map fst d) k"
  by (induction d) (force simp: set_add_def)+

lemma foldl_dd_incr_keys: "map fst (foldl dd_incr d xs) = foldl set_add (map fst d) xs"
  by (induction xs arbitrary: d) (simp_all add: dd_incr_keys)

lemma Counter_keys: "map fst (Counter xs) = foldl set_add [] xs"
  by (simp add: Counter_def foldl_dd_incr_keys)

lemma hex_patterns_Counter:
  "hex_patterns data
     = Counter (map (\<lambda>i. slice data (nat i) (nat i + 4)) (py_range 0 (int (length data) - 4) 4))"
  by (simp add: hex_patterns_def Counter_def foldl_map del: py_range.simps)

text \<open>
  C9.  Two runs of an analyzer on the same buffer can differ in one input only: the order
  in which a Python set enumerates its elements.  For every buffer and every two such
  enumeration orders, each of the seven analyzers returns the same result in both runs,
  and so does the whole aggregator run.  The aggregator keeps no state that a second
  run could see: for every list of registered analyzers, running it a second time on
  the same buffer leaves its ResultSet as the first run made it.  Ties in the two
  frequency rankings are broken by the buffer alone: the ranking of the four-byte
  chunks and the ranking of the field names are each the only arrangement of the
  counted entries by decreasing count in which entries of equal count stand in the
  order of their first occurrence in the buffer.
\<close>

theorem C9_two_runs_agree:
  assumes "\<And>l. mset (enum1 l) = mset l" and "\<And>l. mset (enum2 l) = mset l"
  shows "map (\<lambda>a. analyze a data) (main_analyzers loads enum1)
           = map (\<lambda>a. analyze a data) (main_analyzers loads enum2)
       \<and> results (run_main loads enum1 data) = results (run_main loads enum2 data)
       \<and> results (analyze_all (run_main loads enum1 data) data)
           = results (run_main loads enum2 data)
       \<and> results (analyze_all
                    (analyze_all (foldl add_analyzer HTMLReportGenerator_init registered_list) data)
                    data)
           = results (analyze_all (foldl add_analyzer HTMLReportGenerator_init registered_list) data)
       \<and> top_patterns data = take 10 (sorted_by_count_desc (hex_patterns data))
       \<and> (\<forall>r. (mset r = mset (hex_patterns data)
                 \<and> sorted_wrt (\<lambda>x y. snd y \<le> snd x) r
                 \<and> (\<forall>c. filter (\<lambda>x. snd x = c) r = filter (\<lambda>x. snd x = c) (hex_patterns data)))
               = (r = sorted_by_count_desc (hex_patterns data)))
       \<and> map fst (hex_patterns data)
           = foldl set_add []
               (map (\<lambda>i. slice data (nat i) (nat i + 4)) (py_range 0 (int (length data) - 4) 4))
       \<and> (\<exists>total unique occurrences.
             BSONFieldAnalyzer_analyze data
               = Inr (PDict
                   [(ascii ''total_fields'', total),
                    (ascii ''unique_fields'', unique),
                    (ascii ''top_fields'',
                       PList (map count_val (take 50 (sorted_by_count_desc
                         (Counter (map (\<lambda>m. item_value (bson_field data m))
                                     (finditer bson_pattern data))))))),
                    (ascii ''all_fields'', occurrences)]))
       \<and> (\<forall>r. (mset r = mset (Counter (map (\<lambda>m. item_value (bson_field data m))
                                          (finditer bson_pattern data)))
                 \<and> sorted_wrt (\<lambda>x y. snd y \<le> snd x) r
                 \<and> (\<forall>c. filter (\<lambda>x. snd x = c) r
                        = filter (\<lambda>x. snd x = c)
                            (Counter (map (\<lambda>m. item_value (bson_field data m))
                                        (finditer bson_pattern data)))))
               = (r = sorted_by_count_desc
                        (Counter (map (\<lambda>m. item_value (bson_field data m))
                                    (finditer bson_pattern data)))))
       \<and> map fst (Counter (map (\<lambda>m. item_value (bson_field data m)) (finditer bson_pattern data)))
           = foldl set_add [] (map (\<lambda>m. item_value (bson_field data m)) (finditer bson_pattern data))"
proof -
  have e: "EmailExtractor_analyze enum1 data = EmailExtractor_analyze enum2 data"
    using assms by (rule email_enum)
  have i: "IPAddressExtractor_analyze enum1 data = IPAddressExtractor_analyze enum2 data"
    using assms by (rule ip_enum)
  have runs: "results (run_main loads enum1 data) = results (run_main loads enum2 data)"
    by (simp add: run_main_results main_analyzers_def slot_def e i)
  have again: "results (analyze_all (run_main loads enum1 data) data)
      = results (run_main loads enum1 data)"
    unfolding run_main_def by (rule results_second_run)
  have bson: "\<exists>total unique occurrences.
             BSONFieldAnalyzer_analyze data
               = Inr (PDict
                   [(ascii ''total_fields'', total),
                    (ascii ''unique_fields'', unique),
                    (ascii ''top_fields'',
                       PList (map count_val (take 50 (sorted_by_count_desc
                         (Counter (map (\<lambda>m. item_value (bson_field data m))
                                     (finditer bson_pattern data))))))),
                    (ascii ''all_fields'', occurrences)])"
    unfolding BSONFieldAnalyzer_analyze_eq most_common_def by blast
  show ?thesis
  proof (intro conjI allI)
    show "map (\<lambda>a. analyze a data) (main_analyzers loads enum1)
           = map (\<lambda>a. analyze a data) (main_analyzers loads enum2)"
      by (simp add: main_analyzers_def e i)
    show "results (run_main loads enum1 data) = results (run_main loads enum2 data)"
      by (rule runs)
    show "results (analyze_all (run_main loads enum1 data) data)
           = results (run_main loads enum2 data)"
      using again runs by simp
    show "results (analyze_all
                    (analyze_all (foldl add_analyzer HTMLReportGenerator_init registered_list) data)
                    data)
           = results (analyze_all (foldl add_analyzer HTMLReportGenerator_init registered_list) data)"
      by (rule results_second_run)
    show "top_patterns data = take 10 (sorted_by_count_desc (hex_patterns data))"
      by (rule top_patterns_def)
    show "map fst (hex_patterns data)
           = foldl set_add []
               (map (\<lambda>i. slice data (nat i) (nat i + 4)) (py_range 0 (int (length data) - 4) 4))"
      unfolding hex_patterns_Counter by (rule Counter_keys)
    show "map fst (Counter (map (\<lambda>m. item_value (bson_field data m)) (finditer bson_pattern data)))
           = foldl set_add [] (map (\<lambda>m. item_value (bson_field data m)) (finditer bson_pattern data))"
      by (rule Counter_keys)
  qed (rule ranking_unique bson)+
qed

theorem C9_two_runs_agree_witness:
  "EmailExtractor_analyze id ''b@c.de a@b.cd'' = EmailExtractor_analyze rev ''b@c.de a@b.cd''
   \<and> EmailExtractor_analyze rev ''b@c.de a@b.cd''
       = Inr (PDict [(ascii ''findings'',
                PList [PStr (ascii ''a@b.cd''), PStr (ascii ''b@c.de'')])])
   \<and> foldl set_add [] (map (match_text ''b@c.de a@b.cd'') (finditer email_pattern ''b@c.de a@b.cd''))
       = [ascii ''b@c.de'', ascii ''a@b.cd'']
   \<and> id [ascii ''b@c.de'', ascii ''a@b.cd''] = [ascii ''b@c.de'', ascii ''a@b.cd'']
   \<and> rev [ascii ''b@c.de'', ascii ''a@b.cd''] = [ascii ''a@b.cd'', ascii ''b@c.de'']
   \<and> results (run_main (\<lambda>t. Inl (Exception [])) id ''b@c.de a@b.cd'')
       = results (run_main (\<lambda>t. Inl (Exception [])) rev ''b@c.de a@b.cd'')
   \<and> hex_patterns ''ABCDEFGHEFGHIJKLx'' = [(''ABCD'', 1), (''EFGH'', 2), (''IJKL'', 1)]
   \<and> top_patterns ''ABCDEFGHEFGHIJKLx'' = [(''EFGH'', 2), (''ABCD'', 1), (''IJKL'', 1)]"
proof -
  let ?d = "''b@c.de a@b.cd''"
  let ?h = "''ABCDEFGHEFGHIJKLx''"
  let ?r = "[(''EFGH'', 2 :: nat), (''ABCD'', 1), (''IJKL'', 1)]"
  have a: "\<And>l :: str list. mset (id l) = mset l" by simp
  have b: "\<And>l :: str list. mset (rev l) = mset l" by simp
  note inst = C9_two_runs_agree [OF a b, where loads = "\<lambda>t. Inl (Exception [])"]
  have "map (\<lambda>a. analyze a ?d) (main_analyzers (\<lambda>t. Inl (Exception [])) id)
           = map (\<lambda>a. analyze a ?d) (main_analyzers (\<lambda>t. Inl (Exception [])) rev)"
    by (rule inst [where data = ?d, THEN conjunct1])
  then have same: "EmailExtractor_analyze id ?d = EmailExtractor_analyze rev ?d"
    by (simp add: main_analyzers_def)
  have runs: "results (run_main (\<lambda>t. Inl (Exception [])) id ?d)
       = results (run_main (\<lambda>t. Inl (Exception [])) rev ?d)"
    by (rule inst [where data = ?d, THEN conjunct2, THEN conjunct1])
  have ms: "foldl set_add [] (map (match_text ?d) (finditer email_pattern ?d))
       = [ascii ''b@c.de'', ascii ''a@b.cd'']"
    by (simp add: match_text_def email_pattern_def set_add_def regex_eval class_eval python_eval)
  have ev: "EmailExtractor_analyze rev ?d
       = Inr (PDict [(ascii ''findings'',
                PList [PStr (ascii ''a@b.cd''), PStr (ascii ''b@c.de'')])])"
    by (simp add: extractor_eval regex_eval class_eval python_eval)
  have hp: "hex_patterns ?h = [(''ABCD'', 1), (''EFGH'', 2), (''IJKL'', 1)]"
    by (simp add: hex_eval)
  have top: "top_patterns ?h = take 10 (sorted_by_count_desc (hex_patterns ?h))"
    by (rule inst [where data = ?h, THEN conjunct2, THEN conjunct2, THEN conjunct2,
          THEN conjunct2, THEN conjunct1])
  have uniq: "(mset ?r = mset (hex_patterns ?h)
                 \<and> sorted_wrt (\<lambda>x y. snd y \<le> snd x) ?r
                 \<and> (\<forall>c. filter (\<lambda>x. snd x = c) ?r = filter (\<lambda>x. snd x = c) (hex_patterns ?h)))
               = (?r = sorted_by_count_desc (hex_patterns ?h))"
    by (rule inst [where data = ?h, THEN conjunct2, THEN conjunct2, THEN conjunct2,
          THEN conjunct2, THEN conjunct2, THEN conjunct1, rule_format])
  have "mset ?r = mset (hex_patterns ?h)
                 \<and> sorted_wrt (\<lambda>x y. snd y \<le> snd x) ?r
                 \<and> (\<forall>c. filter (\<lambda>x. snd x = c) ?r = filter (\<lambda>x. snd x = c) (hex_patterns ?h))"
    unfolding hp by simp
  with uniq have "sorted_by_count_desc (hex_patterns ?h) = ?r" by simp
  then have tp: "top_patterns ?h = ?r" unfolding top by simp
  from same ev ms runs hp tp show ?thesis by simp
qed

section \<open>No analyzer raises\<close>

lemma json_finding_member:
  assumes "m \<in> set (finditer json_pattern data)"
    and "loads (projr (utf8_decode Ignore (group0 data m))) = Inr parsed"
  shows "PDict [(ascii ''offset'', PInt (int (start m))), (ascii ''data'', parsed)]
           \<in> set (concat (map (json_finding loads data) (finditer json_pattern data)))"
  using assms by (auto simp: json_finding_def intro!: bexI [of _ m])

text \<open>
  C2.  On every byte buffer each of the seven analyzers returns a result and raises
  nothing (whatever \<^verbatim>\<open>json.loads\<close> does, and whatever the order of set enumeration).
  The JSONExtractor reports exactly the candidates whose decoding and parse succeed, in
  order: a candidate that fails is dropped alone, and every candidate whose parse
  succeeds is reported.  The IPAddressExtractor decides on each candidate alone.
\<close>

theorem C2_analyzers_never_raise:
  "(\<forall>a \<in> set (main_analyzers loads enum). \<exists>r. analyze a data = Inr r)
   \<and> JSONExtractor_analyze loads data
       = Inr (PDict [(ascii ''findings'',
                      PList (concat (map (json_finding loads data) (finditer json_pattern data))))])
   \<and> (\<forall>m \<in> set (finditer json_pattern data). \<forall>parsed.
         loads (projr (utf8_decode Ignore (group0 data m))) = Inr parsed \<longrightarrow>
         PDict [(ascii ''offset'', PInt (int (start m))), (ascii ''data'', parsed)]
           \<in> set (concat (map (json_finding loads data) (finditer json_pattern data))))
   \<and> IPAddressExtractor_analyze enum data
       = Inr (PDict [(ascii ''findings'',
                  PList (map PStr (sort (enum (foldl (\<lambda>ips ip. if ip_ok ip then set_add ips ip else ips) []
                     (map (match_text data) (finditer ip_pattern data)))))))])"
proof (intro conjI)
  have cred: "\<exists>r. CredentialHunter_analyze data = Inr r"
    using CredentialHunter_analyze_eq [OF CredentialHunter_findings_eq] by blast
  show "\<forall>a \<in> set (main_analyzers loads enum). \<exists>r. analyze a data = Inr r"
    using cred
    by (simp add: main_analyzers_def HexDumpAnalyzer_analyze_def Let_def
        BSONFieldAnalyzer_analyze_eq StringExtractor_analyze_eq JSONExtractor_analyze_eq
        EmailExtractor_analyze_eq IPAddressExtractor_analyze_eq)
  show "\<forall>m \<in> set (finditer json_pattern data). \<forall>parsed.
         loads (projr (utf8_decode Ignore (group0 data m))) = Inr parsed \<longrightarrow>
         PDict [(ascii ''offset'', PInt (int (start m))), (ascii ''data'', parsed)]
           \<in> set (concat (map (json_finding loads data) (finditer json_pattern data)))"
    using json_finding_member by blast
qed (rule JSONExtractor_analyze_eq IPAddressExtractor_analyze_eq)+

theorem C2_analyzers_never_raise_witness:
  "JSONExtractor_analyze
     (\<lambda>t. if t = ascii ''{\"a\":123456}'' then Inr (PInt 1) else Inl (Exception []))
     (''{xxxxxxxxxxx}'' @ [CHR 0x00] @ ''{\"a\":123456}'')
   = Inr (PDict [(ascii ''findings'',
                  PList [PDict [(ascii ''offset'', PInt 14), (ascii ''data'', PInt 1)]])])"
proof -
  have ms: "finditer json_pattern (''{xxxxxxxxxxx}'' @ [CHR 0x00] @ ''{\"a\":123456}'')
              = [(0, 13, None), (14, 26, None)]"
    by (simp add: json_pattern_def regex_eval class_eval)
  show ?thesis
    using C2_analyzers_never_raise
      [of "\<lambda>t. if t = ascii ''{\"a\":123456}'' then Inr (PInt 1) else Inl (Exception [])"
          id "''{xxxxxxxxxxx}'' @ [CHR 0x00] @ ''{\"a\":123456}''", THEN conjunct2, THEN conjunct1]
    unfolding ms
    by (simp add: json_finding_def regex_eval class_eval python_eval)
qed

section \<open>Findings and their offsets\<close>

text \<open>
  C3 (as amended).  Every finding of the string, credential, structured-record and
  schema-field analyzers is a mapping made for one match of the analyzer's scan: its
  \<^verbatim>\<open>offset\<close> is a non-negative integer, the byte position inside the buffer where
  that match began, and beside it stands the decoded text of that match (\<^verbatim>\<open>content\<close>
  with its \<^verbatim>\<open>length\<close>, \<^verbatim>\<open>value\<close> cut to 200 characters, \<^verbatim>\<open>name\<close>) or, for the
  structured-record findings, the record parsed from that text (\<^verbatim>\<open>data\<close>); the
  string and schema-field findings follow the matches in scan order, the
  structured-record findings the matches whose text parses.  The findings of the email
  and IP address extractors are bare texts, which have no offset: when the enumeration
  of a set is a permutation of its elements, they are sorted, pairwise distinct, and
  exactly the texts of the matches (for IP addresses, of the matches whose four octets
  are valid).
\<close>

theorem C3_mapping_findings_carry_offsets:
  "(\<exists>fs. StringExtractor_analyze data
            = Inr (PDict [(ascii ''total_strings'',
                             PInt (int (length (finditer string_pattern data)))),
                          (ascii ''findings'', PList fs)])
        \<and> list_all2 (\<lambda>f m. begins_match string_pattern data m
                 \<and> (\<exists>s. ascii_decode Ignore (group0 data m) = Inr s
                      \<and> f = PDict [(ascii ''offset'', PInt (int (start m))),
                                   (ascii ''length'', PInt (int (length s))),
                                   (ascii ''content'', PStr s)]))
            fs (take 500 (finditer string_pattern data)))
   \<and> (\<exists>categories. CredentialHunter_analyze data = Inr (PDict categories)
        \<and> (\<forall>(category, v) \<in> set categories.
              \<exists>pattern_list fs pms.
                (category, pattern_list) \<in> set credential_patterns \<and> v = PList fs
                \<and> list_all2 (\<lambda>f (p, m). p \<in> set pattern_list \<and> m \<in> set (finditer p data)
                       \<and> begins_match p data m
                       \<and> (\<exists>t. utf8_decode Replace (cred_group data m) = Inr t
                            \<and> f = PDict [(ascii ''offset'', PInt (int (start m))),
                                         (ascii ''value'', PStr (take 200 t))]))
                     fs pms))
   \<and> (\<exists>fs. JSONExtractor_analyze loads data = Inr (PDict [(ascii ''findings'', PList fs)])
        \<and> list_all2 (\<lambda>f m. begins_match json_pattern data m
                 \<and> (\<exists>t parsed. utf8_decode Ignore (group0 data m) = Inr t \<and> loads t = Inr parsed
                      \<and> f = PDict [(ascii ''offset'', PInt (int (start m))),
                                   (ascii ''data'', parsed)]))
            fs (filter (\<lambda>m. \<exists>t parsed. utf8_decode Ignore (group0 data m) = Inr t
                                 \<and> loads t = Inr parsed)
                  (finditer json_pattern data)))
   \<and> (\<exists>total unique top fs.
          BSONFieldAnalyzer_analyze data
            = Inr (PDict [(ascii ''total_fields'', total), (ascii ''unique_fields'', unique),
                          (ascii ''top_fields'', top), (ascii ''all_fields'', PList fs)])
        \<and> list_all2 (\<lambda>f m. begins_match bson_pattern data m
                 \<and> (\<exists>bs s. group1 data m = Some bs \<and> utf8_decode Ignore bs = Inr s
                      \<and> f = PDict [(ascii ''offset'', PInt (int (start m))),
                                   (ascii ''name'', PStr s)]))
            fs (take 1000 (finditer bson_pattern data)))
   \<and> ((\<forall>l. mset (enum l) = mset l) \<longrightarrow>
        (\<exists>ss. EmailExtractor_analyze enum data
                = Inr (PDict [(ascii ''findings'', PList (map PStr ss))])
           \<and> sorted ss \<and> distinct ss
           \<and> set ss = {s. \<exists>m \<in> set (finditer email_pattern data).
                            utf8_decode Ignore (group0 data m) = Inr s}))
   \<and> ((\<forall>l. mset (enum l) = mset l) \<longrightarrow>
        (\<exists>ss. IPAddressExtractor_analyze enum data
                = Inr (PDict [(ascii ''findings'', PList (map PStr ss))])
           \<and> sorted ss \<and> distinct ss
           \<and> set ss = {s. \<exists>m \<in> set (finditer ip_pattern data).
                            utf8_decode Strict (group0 data m) = Inr s
                            \<and> all_valid (split_on 46 s) = Inr True}))
   \<and> field ''offset'' (PStr s) = None"
proof (intro conjI)
  show "\<exists>fs. StringExtractor_analyze data
            = Inr (PDict [(ascii ''total_strings'',
                             PInt (int (length (finditer string_pattern data)))),
                          (ascii ''findings'', PList fs)])
        \<and> list_all2 (\<lambda>f m. begins_match string_pattern data m
                 \<and> (\<exists>s. ascii_decode Ignore (group0 data m) = Inr s
                      \<and> f = PDict [(ascii ''offset'', PInt (int (start m))),
                                   (ascii ''length'', PInt (int (length s))),
                                   (ascii ''content'', PStr s)]))
            fs (take 500 (finditer string_pattern data))"
    using StringExtractor_analyze_eq string_own_match by blast
  show "\<exists>categories. CredentialHunter_analyze data = Inr (PDict categories)
        \<and> (\<forall>(category, v) \<in> set categories.
              \<exists>pattern_list fs pms.
                (category, pattern_list) \<in> set credential_patterns \<and> v = PList fs
                \<and> list_all2 (\<lambda>f (p, m). p \<in> set pattern_list \<and> m \<in> set (finditer p data)
                       \<and> begins_match p data m
                       \<and> (\<exists>t. utf8_decode Replace (cred_group data m) = Inr t
                            \<and> f = PDict [(ascii ''offset'', PInt (int (start m))),
                                         (ascii ''value'', PStr (take 200 t))]))
                     fs pms)"
  proof -
    let ?fs = "map (\<lambda>ci. (fst ci, dedup {} [] (snd ci)))
            (filter (\<lambda>ci. snd ci \<noteq> [])
               (map (\<lambda>cp. (fst cp, category_items data (snd cp))) credential_patterns))"
    let ?cats = "map (\<lambda>(category, items). (category, PList (map item_val items))) ?fs"
    have an: "CredentialHunter_analyze data = Inr (PDict ?cats)"
      by (rule CredentialHunter_analyze_eq [OF CredentialHunter_findings_eq])
    have "\<exists>pattern_list fs pms.
                (category, pattern_list) \<in> set credential_patterns \<and> v = PList fs
                \<and> list_all2 (\<lambda>f (p, m). p \<in> set pattern_list \<and> m \<in> set (finditer p data)
                       \<and> begins_match p data m
                       \<and> (\<exists>t. utf8_decode Replace (cred_group data m) = Inr t
                            \<and> f = PDict [(ascii ''offset'', PInt (int (start m))),
                                         (ascii ''value'', PStr (take 200 t))]))
                     fs pms"
      if "(category, v) \<in> set ?cats" for category v
    proof -
      from that obtain pattern_list where cp: "(category, pattern_list) \<in> set credential_patterns"
        and v: "v = PList (map item_val (dedup {} [] (category_items data pattern_list)))"
        by auto
      from cred_own_match [OF cp, of data] cp v show ?thesis by blast
    qed
    then have "\<forall>(category, v) \<in> set ?cats.
              \<exists>pattern_list fs pms.
                (category, pattern_list) \<in> set credential_patterns \<and> v = PList fs
                \<and> list_all2 (\<lambda>f (p, m). p \<in> set pattern_list \<and> m \<in> set (finditer p data)
                       \<and> begins_match p data m
                       \<and> (\<exists>t. utf8_decode Replace (cred_group data m) = Inr t
                            \<and> f = PDict [(ascii ''offset'', PInt (int (start m))),
                                         (ascii ''value'', PStr (take 200 t))]))
                     fs pms"
      by blast
    with an show ?thesis by blast
  qed
  show "\<exists>fs. JSONExtractor_analyze loads data = Inr (PDict [(ascii ''findings'', PList fs)])
        \<and> list_all2 (\<lambda>f m. begins_match json_pattern data m
                 \<and> (\<exists>t parsed. utf8_decode Ignore (group0 data m) = Inr t \<and> loads t = Inr parsed
                      \<and> f = PDict [(ascii ''offset'', PInt (int (start m))),
                                   (ascii ''data'', parsed)]))
            fs (filter (\<lambda>m. \<exists>t parsed. utf8_decode Ignore (group0 data m) = Inr t
                                 \<and> loads t = Inr parsed)
                  (finditer json_pattern data))"
    using JSONExtractor_analyze_eq json_own_match by blast
  show "\<exists>total unique top fs.
          BSONFieldAnalyzer_analyze data
            = Inr (PDict [(ascii ''total_fields'', total), (ascii ''unique_fields'', unique),
                          (ascii ''top_fields'', top), (ascii ''all_fields'', PList fs)])
        \<and> list_all2 (\<lambda>f m. begins_match bson_pattern data m
                 \<and> (\<exists>bs s. group1 data m = Some bs \<and> utf8_decode Ignore bs = Inr s
                      \<and> f = PDict [(ascii ''offset'', PInt (int (start m))),
                                   (ascii ''name'', PStr s)]))
            fs (take 1000 (finditer bson_pattern data))"
    using BSONFieldAnalyzer_analyze_eq bson_own_match by blast
  show "(\<forall>l. mset (enum l) = mset l) \<longrightarrow>
        (\<exists>ss. EmailExtractor_analyze enum data
                = Inr (PDict [(ascii ''findings'', PList (map PStr ss))])
           \<and> sorted ss \<and> distinct ss
           \<and> set ss = {s. \<exists>m \<in> set (finditer email_pattern data).
                            utf8_decode Ignore (group0 data m) = Inr s})"
  proof
    assume perm: "\<forall>l. mset (enum l) = mset l"
    let ?raw = "map (match_text data) (finditer email_pattern data)"
    let ?l = "foldl set_add [] ?raw"
    have l: "distinct ?l" "set ?l = set ?raw" using foldl_set_add [of "[]" ?raw] by simp_all
    have texts: "set ?raw = {s. \<exists>m \<in> set (finditer email_pattern data).
                            utf8_decode Ignore (group0 data m) = Inr s}"
    proof -
      have "utf8_decode Ignore (group0 data m) = Inr (match_text data m)"
        if "m \<in> set (finditer email_pattern data)" for m
        using email_ascii finditer_group0 [OF that] by (intro match_text_utf8) (rule lang_cls_all)
      then show ?thesis by auto
    qed
    from sort_enum_props [of enum ?l, OF perm [rule_format] l(1)] l(2) texts
    have "sorted (sort (enum ?l)) \<and> distinct (sort (enum ?l))
        \<and> set (sort (enum ?l)) = {s. \<exists>m \<in> set (finditer email_pattern data).
                            utf8_decode Ignore (group0 data m) = Inr s}"
      by simp
    with EmailExtractor_analyze_eq [of enum data]
    show "\<exists>ss. EmailExtractor_analyze enum data
                = Inr (PDict [(ascii ''findings'', PList (map PStr ss))])
           \<and> sorted ss \<and> distinct ss
           \<and> set ss = {s. \<exists>m \<in> set (finditer email_pattern data).
                            utf8_decode Ignore (group0 data m) = Inr s}"
      by blast
  qed
  show "(\<forall>l. mset (enum l) = mset l) \<longrightarrow>
        (\<exists>ss. IPAddressExtractor_analyze enum data
                = Inr (PDict [(ascii ''findings'', PList (map PStr ss))])
           \<and> sorted ss \<and> distinct ss
           \<and> set ss = {s. \<exists>m \<in> set (finditer ip_pattern data).
                            utf8_decode Strict (group0 data m) = Inr s
                            \<and> all_valid (split_on 46 s) = Inr True})"
  proof
    assume perm: "\<forall>l. mset (enum l) = mset l"
    let ?raw = "map (match_text data) (finditer ip_pattern data)"
    let ?l = "foldl (\<lambda>ips ip. if ip_ok ip then set_add ips ip else ips) [] ?raw"
    have l: "distinct ?l" "set ?l = {x \<in> set ?raw. ip_ok x}"
      using foldl_set_add_if [of "[]" ip_ok ?raw] by simp_all
    have texts: "{x \<in> set ?raw. ip_ok x} = {s. \<exists>m \<in> set (finditer ip_pattern data).
                            utf8_decode Strict (group0 data m) = Inr s
                            \<and> all_valid (split_on 46 s) = Inr True}"
    proof -
      have "utf8_decode Strict (group0 data m) = Inr (match_text data m)
            \<and> (ip_ok (match_text data m) \<longleftrightarrow> all_valid (split_on 46 (match_text data m)) = Inr True)"
        if "m \<in> set (finditer ip_pattern data)" for m
        using ip_match [OF that] by (auto simp: ip_ok_def)
      then show ?thesis by auto
    qed
    from sort_enum_props [of enum ?l, OF perm [rule_format] l(1)] l(2) texts
    have "sorted (sort (enum ?l)) \<and> distinct (sort (enum ?l))
        \<and> set (sort (enum ?l)) = {s. \<exists>m \<in> set (finditer ip_pattern data).
                            utf8_decode Strict (group0 data m) = Inr s
                            \<and> all_valid (split_on 46 s) = Inr True}"
      by simp
    with IPAddressExtractor_analyze_eq [of enum data]
    show "\<exists>ss. IPAddressExtractor_analyze enum data
                = Inr (PDict [(ascii ''findings'', PList (map PStr ss))])
           \<and> sorted ss \<and> distinct ss
           \<and> set ss = {s. \<exists>m \<in> set (finditer ip_pattern data).
                            utf8_decode Strict (group0 data m) = Inr s
                            \<and> all_valid (split_on 46 s) = Inr True}"
      by blast
  qed
  show "field ''offset'' (PStr s) = None" by simp
qed


theorem C3_mapping_findings_carry_offsets_witness:
  "StringExtractor_analyze ([CHR 0x00] @ ''abcd'')
     = Inr (PDict [(ascii ''total_strings'', PInt 1),
                   (ascii ''findings'',
                      PList [PDict [(ascii ''offset'', PInt 1),
                                    (ascii ''length'', PInt 4),
                                    (ascii ''content'', PStr (ascii ''abcd''))]])])
   \<and> begins_match string_pattern ([CHR 0x00] @ ''abcd'') (1, 5, None)
   \<and> ascii_decode Ignore (group0 ([CHR 0x00] @ ''abcd'') (1, 5, None)) = Inr (ascii ''abcd'')
   \<and> CredentialHunter_analyze ''pwd=abcd''
       = Inr (PDict [(ascii ''passwords'',
                PList [PDict [(ascii ''offset'', PInt 0),
                              (ascii ''value'', PStr (ascii ''abcd''))]])])
   \<and> (\<exists>p m t. begins_match p ''pwd=abcd'' m \<and> start m = 0
          \<and> utf8_decode Replace (cred_group ''pwd=abcd'' m) = Inr t
          \<and> take 200 t = ascii ''abcd'')
   \<and> EmailExtractor_analyze rev ''b@c.de a@b.cd''
       = Inr (PDict [(ascii ''findings'',
                PList [PStr (ascii ''a@b.cd''), PStr (ascii ''b@c.de'')])])
   \<and> sorted [ascii ''a@b.cd'', ascii ''b@c.de'']
   \<and> distinct [ascii ''a@b.cd'', ascii ''b@c.de'']"
proof -
  let ?d1 = "[CHR 0x00] @ ''abcd''"
  have ev1: "StringExtractor_analyze ?d1
     = Inr (PDict [(ascii ''total_strings'', PInt 1),
                   (ascii ''findings'',
                      PList [PDict [(ascii ''offset'', PInt 1),
                                    (ascii ''length'', PInt 4),
                                    (ascii ''content'', PStr (ascii ''abcd''))]])])"
    by (simp add: StringExtractor_analyze_def string_body_def string_pattern_def
        string_finding_def regex_eval class_eval python_eval)
  have ms1: "take 500 (finditer string_pattern ?d1) = [(1, 5, None)]"
    by (simp add: string_pattern_def regex_eval class_eval)
  from C3_mapping_findings_carry_offsets [where data = ?d1, THEN conjunct1]
  obtain fs where fs: "StringExtractor_analyze ?d1
            = Inr (PDict [(ascii ''total_strings'',
                             PInt (int (length (finditer string_pattern ?d1)))),
                          (ascii ''findings'', PList fs)])"
    and la: "list_all2 (\<lambda>f m. begins_match string_pattern ?d1 m
                 \<and> (\<exists>s. ascii_decode Ignore (group0 ?d1 m) = Inr s
                      \<and> f = PDict [(ascii ''offset'', PInt (int (start m))),
                                   (ascii ''length'', PInt (int (length s))),
                                   (ascii ''content'', PStr s)]))
            fs (take 500 (finditer string_pattern ?d1))"
    by blast
  from fs ev1 have fs1: "fs = [PDict [(ascii ''offset'', PInt 1),
                                    (ascii ''length'', PInt 4),
                                    (ascii ''content'', PStr (ascii ''abcd''))]]"
    by simp
  from la have s1: "begins_match string_pattern ?d1 (1, 5, None)
      \<and> ascii_decode Ignore (group0 ?d1 (1, 5, None)) = Inr (ascii ''abcd'')"
    unfolding ms1 fs1 by auto
  let ?d2 = "''pwd=abcd''"
  have ev2: "CredentialHunter_analyze ?d2
       = Inr (PDict [(ascii ''passwords'',
                PList [PDict [(ascii ''offset'', PInt 0),
                              (ascii ''value'', PStr (ascii ''abcd''))]])])"
    by (simp add: cred_eval class_eval regex_eval python_eval item_val_def item_offset_def)
  from C3_mapping_findings_carry_offsets [where data = ?d2, THEN conjunct2, THEN conjunct1]
  obtain categories where an: "CredentialHunter_analyze ?d2 = Inr (PDict categories)"
    and own: "\<forall>(category, v) \<in> set categories.
              \<exists>pattern_list fs pms.
                (category, pattern_list) \<in> set credential_patterns \<and> v = PList fs
                \<and> list_all2 (\<lambda>f (p, m). p \<in> set pattern_list \<and> m \<in> set (finditer p ?d2)
                       \<and> begins_match p ?d2 m
                       \<and> (\<exists>t. utf8_decode Replace (cred_group ?d2 m) = Inr t
                            \<and> f = PDict [(ascii ''offset'', PInt (int (start m))),
                                         (ascii ''value'', PStr (take 200 t))]))
                     fs pms"
    by blast
  from an ev2 have cats: "categories = [(ascii ''passwords'',
                PList [PDict [(ascii ''offset'', PInt 0),
                              (ascii ''value'', PStr (ascii ''abcd''))]])]"
    by simp
  from own have s2: "\<exists>p m t. begins_match p ?d2 m \<and> start m = 0
          \<and> utf8_decode Replace (cred_group ?d2 m) = Inr t
          \<and> take 200 t = ascii ''abcd''"
    unfolding cats by (fastforce simp: list_all2_Cons1)
  let ?d3 = "''b@c.de a@b.cd''"
  have ev3: "EmailExtractor_analyze rev ?d3
       = Inr (PDict [(ascii ''findings'',
                PList [PStr (ascii ''a@b.cd''), PStr (ascii ''b@c.de'')])])"
    by (simp add: extractor_eval regex_eval class_eval python_eval)
  have perm: "\<forall>l :: str list. mset (rev l) = mset l" by simp
  from C3_mapping_findings_carry_offsets [where data = ?d3 and enum = rev,
      THEN conjunct2, THEN conjunct2, THEN conjunct2, THEN conjunct2, THEN conjunct1,
      rule_format, OF perm [rule_format]]
  obtain ss where e: "EmailExtractor_analyze rev ?d3
                = Inr (PDict [(ascii ''findings'', PList (map PStr ss))])"
    and so: "sorted ss" "distinct ss"
    by blast
  from e ev3 have "map PStr ss = [PStr (ascii ''a@b.cd''), PStr (ascii ''b@c.de'')]" by simp
  then have "ss = [ascii ''a@b.cd'', ascii ''b@c.de'']" by auto
  with so have s3: "sorted [ascii ''a@b.cd'', ascii ''b@c.de'']"
    "distinct [ascii ''a@b.cd'', ascii ''b@c.de'']" by simp_all
  from ev1 s1 ev2 s2 ev3 s3 show ?thesis by blast
qed

text \<open>
  C3, counterexample: the finding that the email extractor reports on \<^verbatim>\<open>b"a@b.cd"\<close> and
  the finding that the IP address extractor reports on \<^verbatim>\<open>b"x 1.2.3.4"\<close> are plain texts
  without an offset field.
\<close>

theorem C3_email_and_ip_findings_have_no_offset:
  "EmailExtractor_analyze id ''a@b.cd''
     = Inr (PDict [(ascii ''findings'', PList [PStr (ascii ''a@b.cd'')])])
   \<and> field ''offset'' (PStr (ascii ''a@b.cd'')) = None
   \<and> IPAddressExtractor_analyze id ''x 1.2.3.4''
     = Inr (PDict [(ascii ''findings'', PList [PStr (ascii ''1.2.3.4'')])])
   \<and> field ''offset'' (PStr (ascii ''1.2.3.4'')) = None"
  by (simp add: extractor_eval times_3 regex_eval class_eval python_eval field_def)

section \<open>Decoding the matched bytes\<close>

lemma cred_decoded:
  "\<forall>(category, items) \<in> set (map (\<lambda>ci. (fst ci, dedup {} [] (snd ci)))
            (filter (\<lambda>ci. snd ci \<noteq> [])
               (map (\<lambda>cp. (fst cp, category_items data (snd cp))) credential_patterns))).
     \<forall>it \<in> set items.
       \<exists>pattern_list p m t. (category, pattern_list) \<in> set credential_patterns
          \<and> p \<in> set pattern_list \<and> m \<in> set (finditer p data)
          \<and> utf8_decode Replace (cred_group data m) = Inr t \<and> it = (start m, take 200 t)"
proof (clarify)
  fix category items a b
  assume "(category, items) \<in> set (map (\<lambda>ci. (fst ci, dedup {} [] (snd ci)))
            (filter (\<lambda>ci. snd ci \<noteq> [])
               (map (\<lambda>cp. (fst cp, category_items data (snd cp))) credential_patterns)))"
    and it: "(a, b) \<in> set items"
  then obtain pattern_list where cp: "(category, pattern_list) \<in> set credential_patterns"
    and items: "items = dedup {} [] (category_items data pattern_list)"
    by auto
  have "(a, b) \<in> set (category_items data pattern_list)"
    using dedup_subseq it unfolding items by (rule subseq_member)
  from category_item_match [OF this] obtain p m where p: "p \<in> set pattern_list"
    and m: "m \<in> set (finditer p data)" and eq: "(a, b) = cred_item data m"
    by blast
  have dec: "utf8_decode Replace (cred_group data m)
               = Inr (projr (utf8_decode Replace (cred_group data m)))"
    by (rule utf8_decode_projr) simp
  from cp p m dec eq
  show "\<exists>pattern_list p m t. (category, pattern_list) \<in> set credential_patterns
          \<and> p \<in> set pattern_list \<and> m \<in> set (finditer p data)
          \<and> utf8_decode Replace (cred_group data m) = Inr t \<and> (a, b) = (start m, take 200 t)"
    unfolding cred_item_def by blast
qed

lemma json_decoded:
  "\<forall>f \<in> set (concat (map (json_finding loads data) (finditer json_pattern data))).
     \<exists>m t parsed. m \<in> set (finditer json_pattern data)
        \<and> utf8_decode Ignore (group0 data m) = Inr t \<and> loads t = Inr parsed
        \<and> f = PDict [(ascii ''offset'', PInt (int (start m))), (ascii ''data'', parsed)]"
proof
  fix f
  assume "f \<in> set (concat (map (json_finding loads data) (finditer json_pattern data)))"
  then obtain m where m: "m \<in> set (finditer json_pattern data)"
    and f: "f \<in> set (json_finding loads data m)"
    by auto
  have dec: "utf8_decode Ignore (group0 data m) = Inr (projr (utf8_decode Ignore (group0 data m)))"
    by (rule utf8_decode_projr) simp
  from f have "\<exists>parsed. loads (projr (utf8_decode Ignore (group0 data m))) = Inr parsed
    \<and> f = PDict [(ascii ''offset'', PInt (int (start m))), (ascii ''data'', parsed)]"
    by (cases "loads (projr (utf8_decode Ignore (group0 data m)))") (simp_all add: json_finding_def)
  then obtain parsed where "loads (projr (utf8_decode Ignore (group0 data m))) = Inr parsed"
    and "f = PDict [(ascii ''offset'', PInt (int (start m))), (ascii ''data'', parsed)]"
    by blast
  with m dec
  show "\<exists>m t parsed. m \<in> set (finditer json_pattern data)
        \<and> utf8_decode Ignore (group0 data m) = Inr t \<and> loads t = Inr parsed
        \<and> f = PDict [(ascii ''offset'', PInt (int (start m))), (ascii ''data'', parsed)]"
    by blast
qed

lemma ascii_matches:
  "\<forall>m \<in> set (finditer string_pattern data).
      ascii_decode Ignore (group0 data m) = Inr (match_text data m)"
  "\<forall>m \<in> set (finditer email_pattern data).
      utf8_decode Ignore (group0 data m) = Inr (match_text data m)"
  "\<forall>m \<in> set (finditer ip_pattern data).
      utf8_decode Strict (group0 data m) = Inr (match_text data m)"
proof -
  show "\<forall>m \<in> set (finditer string_pattern data).
      ascii_decode Ignore (group0 data m) = Inr (match_text data m)"
    using string_match_ascii match_text_ascii by blast
  show "\<forall>m \<in> set (finditer email_pattern data).
      utf8_decode Ignore (group0 data m) = Inr (match_text data m)"
    using lang_cls_all [OF email_ascii] finditer_group0 match_text_utf8 by blast
  show "\<forall>m \<in> set (finditer ip_pattern data).
      utf8_decode Strict (group0 data m) = Inr (match_text data m)"
    using ip_match by blast
qed

lemma bson_decoded:
  "\<forall>m \<in> set (finditer bson_pattern data).
     \<exists>bs. group1 data m = Some bs \<and> utf8_decode Ignore bs = Inr (map ord bs)
        \<and> bson_field data m = (start m, map ord bs)"
proof
  fix m
  assume "m \<in> set (finditer bson_pattern data)"
  from bson_match [OF this] obtain j where m: "m = (start m, Suc j, Some (start m, j))"
    and l: "lang (Seq (Cls field_first) (Rep 1 (Some 50) field_rest)) (slice data (start m) j)"
    by blast
  have g: "group1 data m = Some (slice data (start m) j)"
    by (subst m) (simp add: group1_def)
  have "list_all is_ascii (slice data (start m) j)"
    using field_ascii l by (rule lang_cls_all)
  then have "utf8_decode Ignore (slice data (start m) j) = Inr (map ord (slice data (start m) j))"
    by (rule utf8_decode_ascii)
  with g show "\<exists>bs. group1 data m = Some bs \<and> utf8_decode Ignore bs = Inr (map ord bs)
        \<and> bson_field data m = (start m, map ord bs)"
    by (simp add: bson_field_def)
qed

text \<open>
  C7 (as amended).  No decoding of a finding raises, and the lossy decodings never raise
  on any bytes.  The value of a credential finding is the matched bytes of the captured
  group, decoded as UTF-8 with each undecodable sequence replaced by U+FFFD, cut to 200
  characters.  The text that the structured-record extractor parses is the matched bytes
  decoded as UTF-8 with the undecodable bytes dropped.  The string, schema-field, email
  and IP address patterns match ASCII bytes only, so their decodings (ASCII or UTF-8 with
  dropping, strict UTF-8 for IP addresses) return the matched bytes unchanged.
\<close>

theorem C7_decode_policies:
  "(h \<noteq> Strict \<longrightarrow> (\<exists>t. utf8_decode h bs = Inr t) \<and> (\<exists>t. ascii_decode h bs = Inr t))
   \<and> (\<exists>fs. CredentialHunter_findings data = Inr fs
        \<and> (\<forall>(category, items) \<in> set fs. \<forall>it \<in> set items.
              \<exists>pattern_list p m t. (category, pattern_list) \<in> set credential_patterns
                \<and> p \<in> set pattern_list \<and> m \<in> set (finditer p data)
                \<and> utf8_decode Replace (cred_group data m) = Inr t \<and> it = (start m, take 200 t)))
   \<and> (\<exists>fs. JSONExtractor_analyze loads data = Inr (PDict [(ascii ''findings'', PList fs)])
        \<and> (\<forall>f \<in> set fs.
              \<exists>m t parsed. m \<in> set (finditer json_pattern data)
                \<and> utf8_decode Ignore (group0 data m) = Inr t \<and> loads t = Inr parsed
                \<and> f = PDict [(ascii ''offset'', PInt (int (start m))), (ascii ''data'', parsed)]))
   \<and> StringExtractor_analyze data =
       Inr (PDict [(ascii ''total_strings'', PInt (int (length (finditer string_pattern data)))),
                   (ascii ''findings'',
                    PList (take 500 (map (\<lambda>m. string_finding (start m) (match_text data m))
                                       (finditer string_pattern data))))])
   \<and> (\<forall>m \<in> set (finditer string_pattern data).
         ascii_decode Ignore (group0 data m) = Inr (match_text data m))
   \<and> BSONFieldAnalyzer_fields data = Inr (map (bson_field data) (finditer bson_pattern data))
   \<and> (\<forall>m \<in> set (finditer bson_pattern data).
         \<exists>bs. group1 data m = Some bs \<and> utf8_decode Ignore bs = Inr (map ord bs)
            \<and> bson_field data m = (start m, map ord bs))
   \<and> EmailExtractor_analyze enum data =
       Inr (PDict [(ascii ''findings'',
                    PList (map PStr (sort (enum (foldl set_add []
                       (map (match_text data) (finditer email_pattern data)))))))])
   \<and> (\<forall>m \<in> set (finditer email_pattern data).
         utf8_decode Ignore (group0 data m) = Inr (match_text data m))
   \<and> IPAddressExtractor_analyze enum data =
       Inr (PDict [(ascii ''findings'',
                    PList (map PStr (sort (enum (foldl (\<lambda>ips ip. if ip_ok ip then set_add ips ip else ips) []
                       (map (match_text data) (finditer ip_pattern data)))))))])
   \<and> (\<forall>m \<in> set (finditer ip_pattern data).
         utf8_decode Strict (group0 data m) = Inr (match_text data m))"
proof (intro conjI)
  show "h \<noteq> Strict \<longrightarrow> (\<exists>t. utf8_decode h bs = Inr t) \<and> (\<exists>t. ascii_decode h bs = Inr t)"
    using utf8_decode_lossy ascii_decode_lossy by blast
  show "\<exists>fs. CredentialHunter_findings data = Inr fs
        \<and> (\<forall>(category, items) \<in> set fs. \<forall>it \<in> set items.
              \<exists>pattern_list p m t. (category, pattern_list) \<in> set credential_patterns
                \<and> p \<in> set pattern_list \<and> m \<in> set (finditer p data)
                \<and> utf8_decode Replace (cred_group data m) = Inr t \<and> it = (start m, take 200 t))"
    using CredentialHunter_findings_eq cred_decoded by blast
  show "\<exists>fs. JSONExtractor_analyze loads data = Inr (PDict [(ascii ''findings'', PList fs)])
        \<and> (\<forall>f \<in> set fs.
              \<exists>m t parsed. m \<in> set (finditer json_pattern data)
                \<and> utf8_decode Ignore (group0 data m) = Inr t \<and> loads t = Inr parsed
                \<and> f = PDict [(ascii ''offset'', PInt (int (start m))), (ascii ''data'', parsed)])"
    using JSONExtractor_analyze_eq json_decoded by blast
qed (rule StringExtractor_analyze_eq ascii_matches BSONFieldAnalyzer_fields_eq bson_decoded
       EmailExtractor_analyze_eq IPAddressExtractor_analyze_eq)+

theorem C7_decode_policies_witness:
  "((\<exists>t. utf8_decode Replace [CHR ''a'', CHR 0xFF] = Inr t)
      \<and> (\<exists>t. ascii_decode Replace [CHR ''a'', CHR 0xFF] = Inr t))
   \<and> utf8_decode Replace [CHR ''a'', CHR 0xFF] = Inr [97, 0xFFFD]
   \<and> ascii_decode Replace [CHR ''a'', CHR 0xFF] = Inr [97, 0xFFFD]"
proof -
  have "Replace \<noteq> Strict" by simp
  with C7_decode_policies [of Replace "[CHR ''a'', CHR 0xFF]", THEN conjunct1]
  have total: "(\<exists>t. utf8_decode Replace [CHR ''a'', CHR 0xFF] = Inr t)
      \<and> (\<exists>t. ascii_decode Replace [CHR ''a'', CHR 0xFF] = Inr t)"
    by (rule mp)
  have utf8: "utf8_decode Replace [CHR ''a'', CHR 0xFF] = Inr [97, 0xFFFD]"
    by (simp add: python_eval class_eval)
  have asc: "ascii_decode Replace [CHR ''a'', CHR 0xFF] = Inr [97, 0xFFFD]"
    by (simp add: python_eval class_eval)
  show ?thesis by (rule conjI [OF total conjI [OF utf8 asc]])
qed

text \<open>
  C7, counterexample: in \<^verbatim>\<open>b'{"a": 1\xff234567}'\<close> the byte \<^verbatim>\<open>0xFF\<close> is no valid UTF-8.
  The structured-record extractor does not replace it: it drops it, and the text it
  parses is \<^verbatim>\<open>{"a": 1234567}\<close>, where a replacing decode gives U+FFFD between \<^verbatim>\<open>1\<close>
  and \<^verbatim>\<open>2\<close>.
\<close>

theorem C7_json_text_drops_invalid_bytes:
  "utf8_decode Ignore (''{\"a\": 1'' @ [CHR 0xFF] @ ''234567}'') = Inr (ascii ''{\"a\": 1234567}'')
   \<and> utf8_decode Replace (''{\"a\": 1'' @ [CHR 0xFF] @ ''234567}'')
       = Inr (ascii ''{\"a\": 1'' @ [0xFFFD] @ ascii ''234567}'')
   \<and> JSONExtractor_analyze (\<lambda>t. Inr (PStr t)) (''{\"a\": 1'' @ [CHR 0xFF] @ ''234567}'')
       = Inr (PDict [(ascii ''findings'',
                      PList [PDict [(ascii ''offset'', PInt 0),
                                    (ascii ''data'', PStr (ascii ''{\"a\": 1234567}''))]])])"
  by (simp add: JSONExtractor_analyze_def json_body_def json_try_def json_pattern_def
      regex_eval class_eval python_eval)

section \<open>HexDumpAnalyzer: the aligned chunks\<close>

lemma spec_chunks_unfold:
  "spec_chunks ys = (if 4 \<le> length ys then take 4 ys # spec_chunks (drop 4 ys) else [])"
proof (cases ys rule: spec_chunks.cases)
  case (1 a b c d rest)
  then show ?thesis by simp
qed simp_all

lemma take_butlast_slice:
  assumes "k + 4 < length data"
  shows "take 4 (drop k (butlast data)) = slice data k (k + 4)"
proof -
  have "drop k (butlast data) = butlast (drop k data)" by (simp add: drop_butlast)
  moreover have "take 4 (butlast (drop k data)) = take 4 (drop k data)"
    using assms by (simp add: take_butlast)
  ultimately show ?thesis by (simp add: slice_def)
qed

lemma hex_loop:
  "foldl (\<lambda>patterns i. dd_incr patterns (slice data (nat i) (nat i + 4))) acc
     (py_range (int k) (int (length data) - 4) 4)
   = foldl dd_incr acc (spec_chunks (drop k (butlast data)))"
proof (induction "length data - k" arbitrary: k acc rule: less_induct)
  case less
  show ?case
  proof (cases "k + 4 < length data")
    case True
    then have range: "py_range (int k) (int (length data) - 4) 4
                 = int k # py_range (int (k + 4)) (int (length data) - 4) 4"
      by (subst py_range.simps) (simp add: add.commute)
    have len: "4 \<le> length (drop k (butlast data))" using True by simp
    have chunks: "spec_chunks (drop k (butlast data))
            = slice data k (k + 4) # spec_chunks (drop (k + 4) (butlast data))"
      by (subst spec_chunks_unfold) (simp add: len take_butlast_slice [OF True] add.commute del: length_drop length_butlast)
    have "length data - (k + 4) < length data - k" using True by simp
    from less [OF this] show ?thesis by (simp add: range chunks del: py_range.simps)
  next
    case False
    then have "py_range (int k) (int (length data) - 4) 4 = []"
      by (subst py_range.simps) simp
    moreover have "spec_chunks (drop k (butlast data)) = []"
      using False by (subst spec_chunks_unfold) simp
    ultimately show ?thesis by simp
  qed
qed

lemma hex_patterns_butlast: "hex_patterns data = Counter (spec_chunks (butlast data))"
  using hex_loop [of data "[]" 0] by (simp add: hex_patterns_def Counter_def)

lemma top_patterns_butlast: "top_patterns data = spec_top_patterns (butlast data)"
  by (simp add: top_patterns_def spec_top_patterns_def hex_patterns_butlast)

text \<open>
  C4.  The loop of \<^verbatim>\<open>HexDumpAnalyzer.analyze\<close> visits the offsets 0, 4, 8, ... below
  \<^verbatim>\<open>len(data) - 4\<close>: on every buffer its \<^verbatim>\<open>top_patterns\<close> is the ranking of the aligned
  four-byte chunks of the buffer without its last byte.  On the eight bytes
  \<^verbatim>\<open>b"ABCDABCD"\<close> it visits only the offset 0 and counts the chunk \<^verbatim>\<open>41424344\<close> once,
  where the two aligned chunks of the buffer give the count 2; on the four bytes
  \<^verbatim>\<open>b"ABCD"\<close> it counts no chunk at all.
\<close>

theorem C4_last_aligned_chunk_not_counted:
  "top_patterns data = spec_top_patterns (butlast data)
   \<and> top_patterns ''ABCDABCD'' = [(''ABCD'', 1)]
   \<and> map pattern_val (top_patterns ''ABCDABCD'') = [PTuple [PStr (ascii ''41424344''), PInt 1]]
   \<and> spec_top_patterns ''ABCDABCD'' = [(''ABCD'', 2)]
   \<and> top_patterns ''ABCD'' = []
   \<and> spec_top_patterns ''ABCD'' = [(''ABCD'', 1)]"
proof -
  have "top_patterns ''ABCDABCD'' = [(''ABCD'', 1)]
   \<and> map pattern_val (top_patterns ''ABCDABCD'') = [PTuple [PStr (ascii ''41424344''), PInt 1]]
   \<and> spec_top_patterns ''ABCDABCD'' = [(''ABCD'', 2)]
   \<and> top_patterns ''ABCD'' = []
   \<and> spec_top_patterns ''ABCD'' = [(''ABCD'', 1)]"
    by (simp add: hex_eval spec_top_patterns_def Counter_def)
  with top_patterns_butlast show ?thesis by (rule conjI)
qed

end
